theory Spec2Isabelle
  imports Main "HOL-Library.Word" "HOL-Library.Multiset"
begin

unbundle bit_operations_syntax

section \<open>EventHandle\<close>

text \<open>
  \<^verbatim>\<open>using Priority = int16_t\<close>: a 16-bit word, compared as a signed number.
  Addresses (\<^verbatim>\<open>uintptr_t\<close>, \<^verbatim>\<open>void*\<close>) are 64-bit words, compared unsigned; the null
  pointer is 0.
\<close>

type_synonym Priority = "16 word"
type_synonym uintptr = "64 word"

definition Priority_less :: "Priority \<Rightarrow> Priority \<Rightarrow> bool" where
  "Priority_less a b = (sint a < sint b)"

text \<open>\<^verbatim>\<open>enum class Identifier : uint64_t\<close> with its enumerator values.\<close>

datatype Identifier = Invalid | Function | Lambda | StdFunction | MemberFunction

fun Identifier_value :: "Identifier \<Rightarrow> 64 word" where
  "Identifier_value Invalid = 0"
| "Identifier_value Function = 1"
| "Identifier_value Lambda = 2"
| "Identifier_value StdFunction = 3"
| "Identifier_value MemberFunction = 4"

text \<open>
  The three private members of \<^verbatim>\<open>EventHandle\<close>. The members \<^verbatim>\<open>identifier\<close> and
  \<^verbatim>\<open>function\<close> are written \<open>identifier'\<close> and \<open>function'\<close>, since both words are
  keywords.
\<close>

record EventHandle =
  priority :: Priority
  identifier' :: Identifier
  function' :: uintptr

text \<open>The default constructor and \<^verbatim>\<open>Reset\<close>.\<close>

definition EventHandle_default :: EventHandle where
  "EventHandle_default = \<lparr>priority = 0, identifier' = Invalid, function' = 0\<rparr>"

definition Reset :: "EventHandle \<Rightarrow> EventHandle" where
  "Reset h = h\<lparr>priority := 0, identifier' := Invalid, function' := 0\<rparr>"

text \<open>\<^verbatim>\<open>operator bool\<close>.\<close>

definition EventHandle_bool :: "EventHandle \<Rightarrow> bool" where
  "EventHandle_bool h = (identifier' h \<noteq> Invalid \<and> function' h \<noteq> 0)"

text \<open>
  \<^verbatim>\<open>operator<\<close>: the conjunction of the three member comparisons, the priority as a
  signed 16-bit number, the identifier by its underlying value, the address unsigned.
\<close>

definition EventHandle_less :: "EventHandle \<Rightarrow> EventHandle \<Rightarrow> bool" where
  "EventHandle_less a b =
     (Priority_less (priority a) (priority b) \<and>
      Identifier_value (identifier' a) < Identifier_value (identifier' b) \<and>
      function' a < function' b)"

text \<open>\<^verbatim>\<open>operator==\<close>.\<close>

definition EventHandle_eq :: "EventHandle \<Rightarrow> EventHandle \<Rightarrow> bool" where
  "EventHandle_eq a b =
     (priority a = priority b \<and> identifier' a = identifier' b \<and> function' a = function' b)"

text \<open>
  The ordering the specification describes: lexicographic over
  (priority, kind, token). It is written from the specification's words, to be
  compared with \<open>EventHandle_less\<close>.
\<close>

definition EventHandle_lex :: "EventHandle \<Rightarrow> EventHandle \<Rightarrow> bool" where
  "EventHandle_lex a b =
     (Priority_less (priority a) (priority b) \<or>
      (priority a = priority b \<and>
       (Identifier_value (identifier' a) < Identifier_value (identifier' b) \<or>
        (identifier' a = identifier' b \<and> function' a < function' b))))"

section \<open>Call\<close>

text \<open>
  \<^verbatim>\<open>Internal::Call<R(Args...)>\<close>: the handle, the (mutable) class pointer, and the
  thunk \<^verbatim>\<open>std::function<void(void*, Args...)>\<close>. A callback returns nothing that is
  kept; what it does is a change of the world outside the event, a state of type \<open>'s\<close>.
  The thunk (member \<^verbatim>\<open>function\<close>) is written \<open>Call_function\<close>.
\<close>

record ('a, 's) Call =
  handle :: EventHandle
  class_ptr :: uintptr
  Call_function :: "uintptr \<Rightarrow> 'a \<Rightarrow> 's \<Rightarrow> 's"

text \<open>
  The constructor for \<^verbatim>\<open>std::function\<close>, and the one for non-member functions and
  lambdas: the thunk ignores its first argument; \<^verbatim>\<open>class_ptr\<close> keeps its default, null.
\<close>

definition Call_func :: "('a \<Rightarrow> 's \<Rightarrow> 's) \<Rightarrow> EventHandle \<Rightarrow> ('a, 's) Call" where
  "Call_func func h = \<lparr>handle = h, class_ptr = 0, Call_function = (\<lambda>_ args. func args)\<rparr>"

text \<open>
  The constructor for a non-static member function: the thunk calls the member function
  on the object at the address it is given. A member function is modelled by what it
  does on the object at an address.
\<close>

definition Call_member ::
  "uintptr \<Rightarrow> (uintptr \<Rightarrow> 'a \<Rightarrow> 's \<Rightarrow> 's) \<Rightarrow> EventHandle \<Rightarrow> ('a, 's) Call" where
  "Call_member cp func_ptr h =
     \<lparr>handle = h, class_ptr = cp, Call_function = (\<lambda>class_addr args. func_ptr class_addr args)\<rparr>"

text \<open>\<^verbatim>\<open>operator()\<close>: the thunk is run on the call's class pointer.\<close>

definition Call_invoke :: "('a, 's) Call \<Rightarrow> 'a \<Rightarrow> 's \<Rightarrow> 's" where
  "Call_invoke c args = Call_function c (class_ptr c) args"

text \<open>\<^verbatim>\<open>Call::operator==(const EventHandle&)\<close> and \<^verbatim>\<open>Call::operator==(const Call&)\<close>.\<close>

definition Call_eq_handle :: "('a, 's) Call \<Rightarrow> EventHandle \<Rightarrow> bool" where
  "Call_eq_handle c h = EventHandle_eq (handle c) h"

definition Call_eq :: "('a, 's) Call \<Rightarrow> ('a, 's) Call \<Rightarrow> bool" where
  "Call_eq c d = EventHandle_eq (handle c) (handle d)"

section \<open>The call list\<close>

text \<open>
  \<^verbatim>\<open>USet\<close> is an unordered set of calls whose equality is that of the handles;
  \<^verbatim>\<open>CallHash\<close> is computed from the three members of the handle, so that calls with
  equal handles have equal hashes. The set is modelled by the sequence in which it is
  iterated; the standard leaves that sequence open, and a new element is put at its end
  here. Erasing an element keeps the others in their sequence.

  \<^verbatim>\<open>emplace_back\<close>: \<^verbatim>\<open>emplace\<close> adds the call unless an equal one is present, and the
  assertion fails when it was not added.
\<close>

datatype error = NotInitialized | DuplicateHook | CallNotFound | NothingUnhooked

type_synonym ('a, 's) USet = "('a, 's) Call list"

definition emplace_back :: "('a, 's) Call \<Rightarrow> ('a, 's) USet \<Rightarrow> error + ('a, 's) USet" where
  "emplace_back c b =
     (if list_ex (\<lambda>d. Call_eq d c) b then Inl DuplicateHook else Inr (b @ [c]))"

text \<open>
  \<^verbatim>\<open>std::find(begin, end, handle)\<close> followed by \<^verbatim>\<open>erase\<close> of the iterator found: the
  first call equal to the handle is removed.
\<close>

fun erase_found :: "EventHandle \<Rightarrow> ('a, 's) USet \<Rightarrow> ('a, 's) USet" where
  "erase_found h [] = []"
| "erase_found h (c # cs) = (if Call_eq_handle c h then cs else c # erase_found h cs)"

text \<open>
  \<^verbatim>\<open>std::map<Priority, USet>\<close>: the entries in the order of iteration, which is the
  ascending order of the signed keys. \<open>bucket_at\<close> is the bucket that
  \<^verbatim>\<open>callList_[p]\<close> refers to (a new, empty one when the key is absent), and
  \<open>bucket_store\<close> writes a bucket back at its key, at the key's place in the order.
\<close>

type_synonym ('a, 's) CallMap = "(Priority \<times> ('a, 's) USet) list"

fun bucket_at :: "Priority \<Rightarrow> ('a, 's) CallMap \<Rightarrow> ('a, 's) USet" where
  "bucket_at p [] = []"
| "bucket_at p ((q, b) # m) = (if p = q then b else bucket_at p m)"

fun bucket_store :: "Priority \<Rightarrow> ('a, 's) USet \<Rightarrow> ('a, 's) CallMap \<Rightarrow> ('a, 's) CallMap" where
  "bucket_store p b [] = [(p, b)]"
| "bucket_store p b ((q, b') # m) =
     (if p = q then (p, b) # m
      else if Priority_less p q then (p, b) # (q, b') # m
      else (q, b') # bucket_store p b m)"

section \<open>Event\<close>

text \<open>
  The four data members of \<^verbatim>\<open>Event\<close>; \<^verbatim>\<open>callList_\<close>, \<^verbatim>\<open>priority_\<close> and
  \<^verbatim>\<open>initialized_\<close> are written \<open>callList\<close>, \<open>priority_ctr\<close> and \<open>initialized\<close>.
  The template parameter \<^verbatim>\<open>KeepOrder\<close> is the argument \<open>Ordered\<close> of the functions that
  read it.
\<close>

record ('a, 's) Event =
  boundTo :: uintptr
  callList :: "('a, 's) CallMap"
  priority_ctr :: Priority
  initialized :: bool

definition Event_default :: "('a, 's) Event" where
  "Event_default = \<lparr>boundTo = 0, callList = [], priority_ctr = 0, initialized = False\<rparr>"

text \<open>\<^verbatim>\<open>BindTo\<close>, for a null pointer as for an object pointer, and the two constructors
  that call it.\<close>

definition BindTo :: "uintptr \<Rightarrow> ('a, 's) Event \<Rightarrow> ('a, 's) Event" where
  "BindTo bindTo ev = ev\<lparr>boundTo := bindTo, initialized := True\<rparr>"

definition Event_bound :: "uintptr \<Rightarrow> ('a, 's) Event" where
  "Event_bound bindTo = BindTo bindTo Event_default"

text \<open>
  \<^verbatim>\<open>ReplaceBound\<close> and \<^verbatim>\<open>operator=\<close>. The test \<^verbatim>\<open>&other == this\<close> compares the
  addresses of the two events; an event assigned to itself has its own values as the
  source, and the assignment below leaves such an event as it is (lemma
  \<open>assign_self\<close>), so the test needs no branch here.
\<close>

definition ReplaceBound :: "uintptr \<Rightarrow> ('a, 's) Event \<Rightarrow> ('a, 's) Event" where
  "ReplaceBound toReplace ev =
     ev\<lparr>callList :=
          map (\<lambda>(p, b). (p, map (\<lambda>c. if class_ptr c = toReplace
                                        then c\<lparr>class_ptr := boundTo ev\<rparr> else c) b))
              (callList ev)\<rparr>"

definition assign :: "('a, 's) Event \<Rightarrow> ('a, 's) Event \<Rightarrow> ('a, 's) Event" where
  "assign this other =
     (let ev = this\<lparr>callList := callList other,
                    priority_ctr := priority_ctr other,
                    initialized := initialized other\<rparr>
      in if boundTo ev \<noteq> 0 \<and> boundTo other \<noteq> 0 then ReplaceBound (boundTo other) ev else ev)"

text \<open>
  The four overloads of \<^verbatim>\<open>Hook\<close> share their body but for the handle and the call
  they build: the priority is \<^verbatim>\<open>Ordered ? priority_++ : PRIORITY\<close>, and the call is
  put into \<^verbatim>\<open>callList_[priority]\<close>. \<open>Hook_at\<close> is that body, given how to build the
  call from the priority.
\<close>

definition Hook_at ::
  "bool \<Rightarrow> Priority \<Rightarrow> (Priority \<Rightarrow> ('a, 's) Call) \<Rightarrow> ('a, 's) Event
     \<Rightarrow> error + (EventHandle \<times> ('a, 's) Event)" where
  "Hook_at Ordered PRIORITY mk ev =
     (if \<not> initialized ev then Inl NotInitialized
      else
        let p = (if Ordered then priority_ctr ev else PRIORITY);
            ev1 = (if Ordered then ev\<lparr>priority_ctr := priority_ctr ev + 1\<rparr> else ev);
            c = mk p
        in case emplace_back c (bucket_at p (callList ev1)) of
             Inl e \<Rightarrow> Inl e
           | Inr b \<Rightarrow> Inr (handle c, ev1\<lparr>callList := bucket_store p b (callList ev1)\<rparr>))"

text \<open>
  What is hooked: a \<^verbatim>\<open>std::function\<close>, a lambda or a function pointer, each with the
  address its handle takes (\<^verbatim>\<open>POINTER_VALUE_CAST\<close> of the argument, or of the address of
  the lambda) and what calling it does; or an object pointer with a member function,
  given by the bits of the member pointer and what the member function does on an object.
\<close>

datatype ('a, 's) Hookable =
    HookStdFunction uintptr "'a \<Rightarrow> 's \<Rightarrow> 's"
  | HookLambda uintptr "'a \<Rightarrow> 's \<Rightarrow> 's"
  | HookFunction uintptr "'a \<Rightarrow> 's \<Rightarrow> 's"
  | HookMember uintptr uintptr "uintptr \<Rightarrow> 'a \<Rightarrow> 's \<Rightarrow> 's"

fun Hook_call :: "('a, 's) Hookable \<Rightarrow> Priority \<Rightarrow> ('a, 's) Call" where
  "Hook_call (HookStdFunction addr func) p =
     Call_func func \<lparr>priority = p, identifier' = StdFunction, function' = addr\<rparr>"
| "Hook_call (HookLambda addr lambda) p =
     Call_func lambda \<lparr>priority = p, identifier' = Lambda, function' = addr\<rparr>"
| "Hook_call (HookFunction func_ptr func) p =
     Call_func func \<lparr>priority = p, identifier' = Function, function' = func_ptr\<rparr>"
| "Hook_call (HookMember cp pmf func) p =
     Call_member cp func \<lparr>priority = p, identifier' = MemberFunction, function' = cp XOR pmf\<rparr>"

definition Hook ::
  "bool \<Rightarrow> Priority \<Rightarrow> ('a, 's) Hookable \<Rightarrow> ('a, 's) Event
     \<Rightarrow> error + (EventHandle \<times> ('a, 's) Event)" where
  "Hook Ordered PRIORITY f ev = Hook_at Ordered PRIORITY (Hook_call f) ev"

text \<open>A sequence of \<^verbatim>\<open>Hook\<close> calls, each with its priority argument; the handles
  returned are collected in the order of the calls.\<close>

fun Hook_seq ::
  "bool \<Rightarrow> (Priority \<times> ('a, 's) Hookable) list \<Rightarrow> ('a, 's) Event
     \<Rightarrow> error + (EventHandle list \<times> ('a, 's) Event)" where
  "Hook_seq Ordered [] ev = Inr ([], ev)"
| "Hook_seq Ordered ((p, f) # rs) ev =
     (case Hook Ordered p f ev of
        Inl e \<Rightarrow> Inl e
      | Inr (h, ev') \<Rightarrow>
          (case Hook_seq Ordered rs ev' of
             Inl e \<Rightarrow> Inl e
           | Inr (hs, ev'') \<Rightarrow> Inr (h # hs, ev'')))"

text \<open>\<^verbatim>\<open>Invoke\<close>: the two nested loops.\<close>

definition Invoke :: "('a, 's) Event \<Rightarrow> 'a \<Rightarrow> 's \<Rightarrow> error + 's" where
  "Invoke ev args s =
     (if \<not> initialized ev then Inl NotInitialized
      else Inr (fold (\<lambda>(p, b) s'. fold (\<lambda>call. Call_invoke call args) b s') (callList ev) s))"

text \<open>\<^verbatim>\<open>RemoveCall\<close> and \<^verbatim>\<open>Unhook\<close>.\<close>

definition RemoveCall :: "EventHandle \<Rightarrow> ('a, 's) Event \<Rightarrow> error + ('a, 's) Event" where
  "RemoveCall h ev =
     (if \<not> initialized ev then Inl NotInitialized
      else
        let call_list = bucket_at (priority h) (callList ev)
        in if \<not> list_ex (\<lambda>c. Call_eq_handle c h) call_list then Inl CallNotFound
           else Inr (ev\<lparr>callList :=
                          bucket_store (priority h) (erase_found h call_list) (callList ev)\<rparr>))"

definition Unhook :: "EventHandle \<Rightarrow> ('a, 's) Event \<Rightarrow> error + ('a, 's) Event" where
  "Unhook h ev = (if \<not> initialized ev then Inl NotInitialized else RemoveCall h ev)"

text \<open>
  \<^verbatim>\<open>UnhookClass\<close>. The sentinel handle is built by
  \<^verbatim>\<open>EventHandle handle(0, class_ptr, 0)\<close>, with the class pointer in the place of the
  \<^verbatim>\<open>Identifier\<close> of the constructor. The source declares no conversion from a pointer
  to \<^verbatim>\<open>Identifier\<close>, so the value that the identifier of the sentinel takes is not
  given by the source: it is the argument \<open>as_Identifier\<close> here, which gives that
  identifier's underlying value for a class pointer. The loop compares the identifier
  of each call with that of the sentinel, two values of the enumeration, equal exactly
  when their underlying values are; in every bucket each call for which they are equal is
  erased, and the assertion fails when none was.
\<close>

definition UnhookClass ::
  "(uintptr \<Rightarrow> 64 word) \<Rightarrow> uintptr \<Rightarrow> ('a, 's) Event \<Rightarrow> error + ('a, 's) Event" where
  "UnhookClass as_Identifier cp ev =
     (if \<not> initialized ev then Inl NotInitialized
      else
        let k = as_Identifier cp;
            unhooked = list_ex (\<lambda>(p, b).
                          list_ex (\<lambda>c. Identifier_value (identifier' (handle c)) = k) b)
                         (callList ev);
            ev' = ev\<lparr>callList :=
                       map (\<lambda>(p, b).
                              (p, filter (\<lambda>c. Identifier_value (identifier' (handle c)) \<noteq> k) b))
                           (callList ev)\<rparr>
        in if unhooked then Inr ev' else Inl NothingUnhooked)"

text \<open>\<^verbatim>\<open>CallListSize\<close> and \<^verbatim>\<open>Clear\<close>.\<close>

definition CallListSize :: "('a, 's) Event \<Rightarrow> error + nat" where
  "CallListSize ev =
     (if \<not> initialized ev then Inl NotInitialized
      else Inr (fold (\<lambda>(p, b) size. size + length b) (callList ev) 0))"

definition Clear :: "('a, 's) Event \<Rightarrow> error + ('a, 's) Event" where
  "Clear ev =
     (if \<not> initialized ev then Inl NotInitialized
      else Inr (ev\<lparr>callList := map (\<lambda>(p, b). (p, [])) (callList ev)\<rparr>))"

section \<open>Observations and invariants\<close>

text \<open>The calls of an event in the order in which \<^verbatim>\<open>Invoke\<close> goes through them:
  bucket after bucket.\<close>

definition stored_calls :: "('a, 's) Event \<Rightarrow> ('a, 's) Call list" where
  "stored_calls ev = concat (map snd (callList ev))"

text \<open>
  What holds of the call list of every event: the keys of the map ascend strictly (it is
  a \<^verbatim>\<open>std::map\<close>), no bucket holds two calls with equal handles, every call lies in the
  bucket of its handle's priority, and an event that is not initialized holds no bucket.
\<close>

definition keys_ascending :: "('a, 's) CallMap \<Rightarrow> bool" where
  "keys_ascending m = sorted_wrt Priority_less (map fst m)"

definition buckets_unique :: "('a, 's) CallMap \<Rightarrow> bool" where
  "buckets_unique m = list_all (\<lambda>(p, b). distinct (map handle b)) m"

definition buckets_keyed :: "('a, 's) CallMap \<Rightarrow> bool" where
  "buckets_keyed m = list_all (\<lambda>(p, b). list_all (\<lambda>c. priority (handle c) = p) b) m"

definition Event_inv :: "('a, 's) Event \<Rightarrow> bool" where
  "Event_inv ev =
     (keys_ascending (callList ev) \<and> buckets_unique (callList ev) \<and>
      buckets_keyed (callList ev) \<and> (initialized ev \<or> callList ev = []))"

section \<open>Hooking in order-preserving mode\<close>

text \<open>What calling the thing hooked does: a member function is called on the object
  it was hooked with.\<close>

fun Hookable_invoke :: "('a, 's) Hookable \<Rightarrow> 'a \<Rightarrow> 's \<Rightarrow> 's" where
  "Hookable_invoke (HookStdFunction addr func) args = func args"
| "Hookable_invoke (HookLambda addr lambda) args = lambda args"
| "Hookable_invoke (HookFunction func_ptr func) args = func args"
| "Hookable_invoke (HookMember cp pmf func) args = func cp args"

text \<open>The calls that a sequence of hooks builds when every hook takes the value of a
  counter for its priority and the counter goes up by one.\<close>

fun ordered_calls :: "Priority \<Rightarrow> (Priority \<times> ('a, 's) Hookable) list \<Rightarrow> ('a, 's) Call list" where
  "ordered_calls c [] = []"
| "ordered_calls c ((P, f) # rs) = Hook_call f c # ordered_calls (c + 1) rs"

section \<open>Callbacks for the examples\<close>

text \<open>
  Callbacks whose calls can be seen: the world is the list of the calls made so far. A
  free function adds its number to it, a member function the address of the object it
  is run on.
\<close>

definition record_call :: "nat \<Rightarrow> unit \<Rightarrow> nat list \<Rightarrow> nat list" where
  "record_call n args tr = tr @ [n]"

definition record_object :: "uintptr \<Rightarrow> unit \<Rightarrow> nat list \<Rightarrow> nat list" where
  "record_object this args tr = tr @ [unat this]"

text \<open>One function hooked after the other, \<open>n\<close> of them, each at another address and
  each adding its number to the world; the priority argument is 0 throughout.\<close>

definition numbered_hooks :: "nat \<Rightarrow> (Priority \<times> (unit, nat list) Hookable) list" where
  "numbered_hooks n = map (\<lambda>i. (0, HookFunction (word_of_nat (Suc i)) (record_call i))) [0..<n]"

section \<open>The map and its buckets\<close>

lemma EventHandle_eq_iff: "EventHandle_eq a b \<longleftrightarrow> a = b"
  by (cases a, cases b) (auto simp: EventHandle_eq_def)

lemma Priority_less_trans: "Priority_less a b \<Longrightarrow> Priority_less b c \<Longrightarrow> Priority_less a c"
  by (simp add: Priority_less_def)

lemma Priority_less_irrefl: "\<not> Priority_less a a"
  by (simp add: Priority_less_def)

lemma Priority_less_linear: "\<not> Priority_less a b \<Longrightarrow> a \<noteq> b \<Longrightarrow> Priority_less b a"
  unfolding Priority_less_def by (metis linorder_neqE_linordered_idom signed_word_eqI)

lemma fold_buckets_concat:
  "fold (\<lambda>(p, b) s'. fold g b s') m s = fold g (concat (map snd m)) s"
  by (induction m arbitrary: s) auto

lemma fold_size_concat:
  "fold (\<lambda>(p, b) size. size + length b) m k = k + length (concat (map snd m))"
  by (induction m arbitrary: k) auto

lemma bucket_at_cases: "bucket_at p m = [] \<or> (p, bucket_at p m) \<in> set m"
  by (induction m) (auto split: if_splits)

lemma bucket_at_below:
  "\<forall>q \<in> set (map fst m). Priority_less p q \<Longrightarrow> bucket_at p m = []"
  by (induction m) (auto simp: Priority_less_irrefl)

lemma bucket_at_above:
  "\<forall>q \<in> set (map fst m). Priority_less q p \<Longrightarrow> bucket_at p m = []"
  by (induction m) (auto simp: Priority_less_irrefl)

lemma bucket_store_above:
  "\<forall>q \<in> set (map fst m). Priority_less q p \<Longrightarrow> bucket_store p b m = m @ [(p, b)]"
  by (induction m) (auto simp: Priority_less_def)

lemma keys_bucket_store: "set (map fst (bucket_store p b m)) = insert p (set (map fst m))"
  by (induction p b m rule: bucket_store.induct) (simp_all add: insert_commute)

lemma keys_ascending_store:
  "keys_ascending m \<Longrightarrow> keys_ascending (bucket_store p b m)"
  unfolding keys_ascending_def
proof (induction m)
  case Nil
  then show ?case by simp
next
  case (Cons e m)
  obtain q b' where e: "e = (q, b')" by (cases e)
  show ?case
  proof (cases "p = q")
    case True
    with Cons.prems e show ?thesis by simp
  next
    case neq: False
    show ?thesis
    proof (cases "Priority_less p q")
      case True
      with Cons.prems e neq show ?thesis
        by (auto intro: Priority_less_trans)
    next
      case False
      then have qp: "Priority_less q p" using neq by (metis Priority_less_linear)
      from Cons.prems e have "sorted_wrt Priority_less (map fst m)"
        and all: "\<forall>k \<in> set (map fst m). Priority_less q k" by auto
      with Cons.IH have "sorted_wrt Priority_less (map fst (bucket_store p b m))" by simp
      moreover have "\<forall>k \<in> set (map fst (bucket_store p b m)). Priority_less q k"
        using all qp by (simp only: keys_bucket_store) auto
      ultimately show ?thesis using e neq False by simp
    qed
  qed
qed

lemma list_all_bucket_store:
  "list_all P m \<Longrightarrow> P (p, b) \<Longrightarrow> list_all P (bucket_store p b m)"
  by (induction m) auto

lemma list_all_bucket_at:
  "list_all P m \<Longrightarrow> P (p, []) \<Longrightarrow> P (p, bucket_at p m)"
  by (induction m) auto

lemma mset_bucket_store:
  "keys_ascending m \<Longrightarrow>
   mset (concat (map snd (bucket_store p b m))) + mset (bucket_at p m) =
   mset (concat (map snd m)) + mset b"
proof (induction m)
  case Nil
  then show ?case by simp
next
  case (Cons e m)
  obtain q b' where e: "e = (q, b')" by (cases e)
  from Cons.prems e have asc: "keys_ascending m"
    and above: "\<forall>k \<in> set (map fst m). Priority_less q k"
    by (auto simp: keys_ascending_def)
  show ?case
  proof (cases "Priority_less p q \<and> p \<noteq> q")
    case True
    then have "\<forall>k \<in> set (map fst m). Priority_less p k"
      using above by (auto intro: Priority_less_trans)
    then have "bucket_at p m = []" by (rule bucket_at_below)
    with True e show ?thesis by simp
  next
    case False
    with e Cons.IH[OF asc] show ?thesis by auto
  qed
qed

lemma length_bucket_store:
  assumes "keys_ascending m"
  shows "length (concat (map snd (bucket_store p b m))) + length (bucket_at p m) =
         length (concat (map snd m)) + length b"
proof -
  have "size (mset (concat (map snd (bucket_store p b m))) + mset (bucket_at p m)) =
        size (mset (concat (map snd m)) + mset b)"
    by (simp only: mset_bucket_store[OF assms])
  then show ?thesis by simp
qed

lemma erase_found_filter:
  "distinct (map handle b) \<Longrightarrow> erase_found h b = filter (\<lambda>c. handle c \<noteq> h) b"
proof (induction b)
  case Nil
  then show ?case by simp
next
  case (Cons c b)
  show ?case
  proof (cases "handle c = h")
    case True
    with Cons.prems have "\<forall>d \<in> set b. handle d \<noteq> h" by (auto simp: image_iff)
    then have "filter (\<lambda>c. handle c \<noteq> h) b = b" by (simp add: filter_id_conv)
    with True show ?thesis by (simp add: Call_eq_handle_def EventHandle_eq_iff)
  next
    case False
    with Cons show ?thesis by (simp add: Call_eq_handle_def EventHandle_eq_iff)
  qed
qed

lemma filter_other_bucket:
  "list_all (\<lambda>c. priority (handle c) = q) b \<Longrightarrow> priority h \<noteq> q \<Longrightarrow>
   filter (\<lambda>c. handle c \<noteq> h) b = b"
  by (auto simp: filter_id_conv list_all_iff)

lemma filter_other_buckets:
  "buckets_keyed m \<Longrightarrow> priority h \<notin> set (map fst m) \<Longrightarrow>
   filter (\<lambda>c. handle c \<noteq> h) (concat (map snd m)) = concat (map snd m)"
  unfolding buckets_keyed_def
  by (induction m) (auto simp: filter_other_bucket)

lemma stored_erase_found:
  assumes "keys_ascending m" "buckets_unique m" "buckets_keyed m"
  shows "concat (map snd (bucket_store (priority h) (erase_found h (bucket_at (priority h) m)) m)) =
         filter (\<lambda>c. handle c \<noteq> h) (concat (map snd m))"
  using assms
proof (induction m)
  case Nil
  then show ?case by simp
next
  case (Cons e m)
  obtain q b where e: "e = (q, b)" by (cases e)
  from Cons.prems e have asc: "keys_ascending m" and above: "\<forall>k \<in> set (map fst m). Priority_less q k"
    and uq: "buckets_unique m" and db: "distinct (map handle b)"
    and kd: "buckets_keyed m" and kb: "list_all (\<lambda>c. priority (handle c) = q) b"
    by (auto simp: keys_ascending_def buckets_unique_def buckets_keyed_def)
  show ?case
  proof (cases "priority h = q")
    case True
    from above have "q \<notin> set (map fst m)" by (auto simp: Priority_less_irrefl)
    with kd True have "filter (\<lambda>c. handle c \<noteq> h) (concat (map snd m)) = concat (map snd m)"
      by (simp add: filter_other_buckets)
    with True e db show ?thesis by (simp add: erase_found_filter)
  next
    case neq: False
    have fb: "filter (\<lambda>c. handle c \<noteq> h) b = b" using kb neq by (rule filter_other_bucket)
    show ?thesis
    proof (cases "Priority_less (priority h) q")
      case True
      then have "\<forall>k \<in> set (map fst m). Priority_less (priority h) k"
        using above by (auto intro: Priority_less_trans)
      then have "bucket_at (priority h) m = []" and "priority h \<notin> set (map fst m)"
        by (auto simp: bucket_at_below Priority_less_irrefl)
      with True neq e fb kd show ?thesis by (simp add: filter_other_buckets)
    next
      case False
      with neq e fb Cons.IH[OF asc uq kd] show ?thesis by simp
    qed
  qed
qed

section \<open>What the operations return\<close>

lemmas eval_defs = Hook_def Hook_at_def Let_def emplace_back_def Call_eq_def EventHandle_eq_def
  Call_func_def Call_member_def Event_bound_def BindTo_def Event_default_def Priority_less_def
  Invoke_def Call_invoke_def record_call_def record_object_def CallListSize_def
  Unhook_def RemoveCall_def Call_eq_handle_def UnhookClass_def Clear_def
  stored_calls_def Event_inv_def keys_ascending_def buckets_unique_def buckets_keyed_def
  assign_def ReplaceBound_def

lemma list_ex_Call_eq: "list_ex (\<lambda>d. Call_eq d c) b \<longleftrightarrow> handle c \<in> handle ` set b"
  unfolding list_ex_iff Call_eq_def EventHandle_eq_iff image_iff by metis

lemma list_ex_Call_eq_handle: "list_ex (\<lambda>c. Call_eq_handle c h) b \<longleftrightarrow> h \<in> handle ` set b"
  unfolding list_ex_iff Call_eq_handle_def EventHandle_eq_iff image_iff by metis

lemma emplace_back_eq:
  "emplace_back c b = (if handle c \<in> handle ` set b then Inl DuplicateHook else Inr (b @ [c]))"
  by (simp add: emplace_back_def list_ex_Call_eq)

lemma priority_Hook_call: "priority (handle (Hook_call f p)) = p"
  by (cases f) (simp_all add: Call_func_def Call_member_def)

lemma Hook_eq:
  assumes "p = (if Ordered then priority_ctr ev else P)"
  shows "Hook Ordered P f ev =
          (if \<not> initialized ev then Inl NotInitialized
           else if handle (Hook_call f p) \<in> handle ` set (bucket_at p (callList ev))
             then Inl DuplicateHook
           else Inr (handle (Hook_call f p),
                     ev\<lparr>callList := bucket_store p (bucket_at p (callList ev) @ [Hook_call f p])
                                      (callList ev),
                        priority_ctr := (if Ordered then priority_ctr ev + 1 else priority_ctr ev)\<rparr>))"
  using assms by (simp add: Hook_def Hook_at_def Let_def emplace_back_eq)

lemma Unhook_eq:
  "Unhook h ev =
     (if \<not> initialized ev then Inl NotInitialized
      else if h \<notin> handle ` set (bucket_at (priority h) (callList ev)) then Inl CallNotFound
      else Inr (ev\<lparr>callList := bucket_store (priority h)
                     (erase_found h (bucket_at (priority h) (callList ev))) (callList ev)\<rparr>))"
  by (simp add: Unhook_def RemoveCall_def Let_def list_ex_Call_eq_handle)

lemma list_ex_buckets:
  "list_ex (\<lambda>(p, b). list_ex Q b) m \<longleftrightarrow> (\<exists>c \<in> set (concat (map snd m)). Q c)"
  by (induction m) (auto simp: list_ex_iff)

lemma UnhookClass_eq:
  "UnhookClass as_Identifier cp ev =
     (if \<not> initialized ev then Inl NotInitialized
      else if \<forall>c \<in> set (stored_calls ev).
                Identifier_value (identifier' (handle c)) \<noteq> as_Identifier cp
        then Inl NothingUnhooked
      else Inr (ev\<lparr>callList :=
                     map (\<lambda>(p, b).
                            (p, filter (\<lambda>c. Identifier_value (identifier' (handle c)) \<noteq>
                                             as_Identifier cp) b))
                         (callList ev)\<rparr>))"
  by (simp add: UnhookClass_def Let_def list_ex_buckets stored_calls_def)

lemma distinct_erase_found:
  "distinct (map handle b) \<Longrightarrow> distinct (map handle (erase_found h b))"
  by (simp add: erase_found_filter distinct_map_filter)

lemma buckets_unique_at: "buckets_unique m \<Longrightarrow> distinct (map handle (bucket_at p m))"
  unfolding buckets_unique_def
  using list_all_bucket_at[of "\<lambda>(p, b). distinct (map handle b)" m p] by simp

lemma buckets_keyed_at: "buckets_keyed m \<Longrightarrow> list_all (\<lambda>c. priority (handle c) = p) (bucket_at p m)"
  unfolding buckets_keyed_def
  using list_all_bucket_at[of "\<lambda>(p, b). list_all (\<lambda>c. priority (handle c) = p) b" m p] by simp

lemma buckets_unique_store:
  "buckets_unique m \<Longrightarrow> distinct (map handle b) \<Longrightarrow> buckets_unique (bucket_store p b m)"
  unfolding buckets_unique_def by (rule list_all_bucket_store) simp_all

lemma buckets_keyed_store:
  "buckets_keyed m \<Longrightarrow> list_all (\<lambda>c. priority (handle c) = p) b \<Longrightarrow>
   buckets_keyed (bucket_store p b m)"
  unfolding buckets_keyed_def by (rule list_all_bucket_store) simp_all


lemma buckets_unique_Hook:
  assumes "buckets_unique (callList ev)" "Hook Ordered P f ev = Inr (h, ev')"
  shows "buckets_unique (callList ev')"
proof -
  define p where "p = (if Ordered then priority_ctr ev else P)"
  from assms(2) have new: "handle (Hook_call f p) \<notin> handle ` set (bucket_at p (callList ev))"
    and ev': "callList ev' = bucket_store p (bucket_at p (callList ev) @ [Hook_call f p]) (callList ev)"
    by (auto simp: Hook_eq[OF p_def] split: if_splits)
  have "distinct (map handle (bucket_at p (callList ev) @ [Hook_call f p]))"
    using buckets_unique_at[OF assms(1), of p] new by simp
  with assms(1) show ?thesis unfolding ev' by (rule buckets_unique_store)
qed

lemma buckets_unique_Unhook:
  assumes "buckets_unique (callList ev)" "Unhook h ev = Inr ev'"
  shows "buckets_unique (callList ev')"
proof -
  from assms(2) have ev': "callList ev' = bucket_store (priority h)
      (erase_found h (bucket_at (priority h) (callList ev))) (callList ev)"
    by (auto simp: Unhook_eq split: if_splits)
  show ?thesis unfolding ev'
    using assms(1) by (intro buckets_unique_store distinct_erase_found buckets_unique_at)
qed

lemma buckets_unique_filter:
  "buckets_unique m \<Longrightarrow> buckets_unique (map (\<lambda>(p, b). (p, filter Q b)) m)"
  unfolding buckets_unique_def by (induction m) (auto simp: distinct_map_filter)

lemma buckets_unique_UnhookClass:
  assumes "buckets_unique (callList ev)" "UnhookClass as_Identifier cp ev = Inr ev'"
  shows "buckets_unique (callList ev')"
  using assms by (auto simp: UnhookClass_eq buckets_unique_filter split: if_splits)

lemma buckets_unique_Clear:
  assumes "Clear ev = Inr ev'"
  shows "buckets_unique (callList ev')"
  using assms
  by (auto simp: Clear_def buckets_unique_def list_all_iff split: if_splits)

lemma map_handle_rebind:
  "map handle (map (\<lambda>c. if class_ptr c = r then c\<lparr>class_ptr := q\<rparr> else c) b) = map handle b"
  by (induction b) auto

lemma buckets_unique_ReplaceBound:
  "buckets_unique (callList ev) \<Longrightarrow> buckets_unique (callList (ReplaceBound r ev))"
proof -
  have "buckets_unique m \<Longrightarrow>
        buckets_unique (map (\<lambda>(p, b). (p, map (\<lambda>c. if class_ptr c = r
                                        then c\<lparr>class_ptr := q\<rparr> else c) b)) m)" for m :: "('a, 'b) CallMap" and q
    unfolding buckets_unique_def
    by (induction m) (auto simp: map_handle_rebind simp del: map_map)
  then show "buckets_unique (callList ev) \<Longrightarrow> buckets_unique (callList (ReplaceBound r ev))"
    by (simp add: ReplaceBound_def)
qed

lemma buckets_unique_assign:
  assumes "buckets_unique (callList other)"
  shows "buckets_unique (callList (assign this other))"
  using assms by (simp add: assign_def Let_def buckets_unique_ReplaceBound)


section \<open>The invariant under the operations\<close>

text \<open>
  A default-constructed event satisfies \<open>Event_inv\<close>, and \<^verbatim>\<open>BindTo\<close>, \<^verbatim>\<open>Hook\<close>,
  \<^verbatim>\<open>Unhook\<close>, \<^verbatim>\<open>UnhookClass\<close>, \<^verbatim>\<open>Clear\<close> and copy assignment keep it: it holds of
  every event the operations can build.
\<close>

lemma Event_inv_Hook:
  assumes "Event_inv ev" "Hook Ordered P f ev = Inr (h, ev')"
  shows "Event_inv ev'"
proof -
  define p where "p = (if Ordered then priority_ctr ev else P)"
  from assms(2) have new: "handle (Hook_call f p) \<notin> handle ` set (bucket_at p (callList ev))"
    and ev': "callList ev' = bucket_store p (bucket_at p (callList ev) @ [Hook_call f p]) (callList ev)"
    and init: "initialized ev'"
    by (auto simp: Hook_eq[OF p_def] split: if_splits)
  from assms(1) have asc: "keys_ascending (callList ev)" and uq: "buckets_unique (callList ev)"
    and kd: "buckets_keyed (callList ev)" by (simp_all add: Event_inv_def)
  have "distinct (map handle (bucket_at p (callList ev) @ [Hook_call f p]))"
    using buckets_unique_at[OF uq, of p] new by simp
  with uq have "buckets_unique (callList ev')" unfolding ev' by (rule buckets_unique_store)
  moreover have "list_all (\<lambda>c. priority (handle c) = p) (bucket_at p (callList ev) @ [Hook_call f p])"
    using buckets_keyed_at[OF kd, of p] by (simp add: priority_Hook_call)
  with kd have "buckets_keyed (callList ev')" unfolding ev' by (rule buckets_keyed_store)
  moreover have "keys_ascending (callList ev')" unfolding ev' using asc by (rule keys_ascending_store)
  ultimately show ?thesis using init by (simp add: Event_inv_def)
qed

lemma list_all_erase_found: "list_all Q b \<Longrightarrow> list_all Q (erase_found h b)"
  by (induction b) auto

lemma Event_inv_Unhook:
  assumes "Event_inv ev" "Unhook h ev = Inr ev'"
  shows "Event_inv ev'"
proof -
  from assms(2) have ev': "callList ev' = bucket_store (priority h)
      (erase_found h (bucket_at (priority h) (callList ev))) (callList ev)"
    and init: "initialized ev'"
    by (auto simp: Unhook_eq split: if_splits)
  from assms(1) have asc: "keys_ascending (callList ev)" and uq: "buckets_unique (callList ev)"
    and kd: "buckets_keyed (callList ev)" by (simp_all add: Event_inv_def)
  have "buckets_unique (callList ev')" unfolding ev'
    using uq by (intro buckets_unique_store distinct_erase_found buckets_unique_at)
  moreover have "buckets_keyed (callList ev')" unfolding ev'
    using kd by (intro buckets_keyed_store list_all_erase_found buckets_keyed_at)
  moreover have "keys_ascending (callList ev')" unfolding ev' using asc by (rule keys_ascending_store)
  ultimately show ?thesis using init by (simp add: Event_inv_def)
qed

lemma stored_calls_Unhook:
  assumes "Event_inv ev" "Unhook h ev = Inr ev'"
  shows "stored_calls ev' = filter (\<lambda>c. handle c \<noteq> h) (stored_calls ev)"
proof -
  from assms(2) have ev': "callList ev' = bucket_store (priority h)
      (erase_found h (bucket_at (priority h) (callList ev))) (callList ev)"
    by (auto simp: Unhook_eq split: if_splits)
  from assms(1) show ?thesis
    unfolding stored_calls_def ev' Event_inv_def by (intro stored_erase_found) simp_all
qed

lemma length_erase_found:
  "h \<in> handle ` set b \<Longrightarrow> Suc (length (erase_found h b)) = length b"
  by (induction b) (auto simp: Call_eq_handle_def EventHandle_eq_iff)

lemma length_stored_Unhook:
  assumes "Event_inv ev" "Unhook h ev = Inr ev'"
  shows "length (stored_calls ev) = Suc (length (stored_calls ev'))"
proof -
  let ?b = "bucket_at (priority h) (callList ev)"
  from assms(2) have ev': "callList ev' = bucket_store (priority h) (erase_found h ?b) (callList ev)"
    and mem: "h \<in> handle ` set ?b"
    by (auto simp: Unhook_eq split: if_splits)
  from assms(1) have asc: "keys_ascending (callList ev)" by (simp add: Event_inv_def)
  from length_bucket_store[OF asc, of "priority h" "erase_found h ?b"] length_erase_found[OF mem]
  show ?thesis unfolding stored_calls_def ev' by simp
qed

lemma Invoke_eq:
  "Invoke ev args s =
     (if \<not> initialized ev then Inl NotInitialized
      else Inr (fold (\<lambda>c. Call_invoke c args) (stored_calls ev) s))"
  by (simp add: Invoke_def stored_calls_def fold_buckets_concat)

lemma CallListSize_eq:
  "CallListSize ev =
     (if \<not> initialized ev then Inl NotInitialized else Inr (length (stored_calls ev)))"
  by (simp add: CallListSize_def stored_calls_def fold_size_concat)


lemma Event_inv_default: "Event_inv Event_default"
  by (simp add: Event_inv_def Event_default_def keys_ascending_def buckets_unique_def
        buckets_keyed_def)

lemma Event_inv_BindTo: "Event_inv ev \<Longrightarrow> Event_inv (BindTo bindTo ev)"
  by (simp add: Event_inv_def BindTo_def)

lemma Event_inv_map_buckets:
  assumes "keys_ascending m" "buckets_unique m" "buckets_keyed m"
    and "\<And>b. distinct (map handle b) \<Longrightarrow> distinct (map handle (g b))"
    and "\<And>b p. list_all (\<lambda>c. priority (handle c) = p) b \<Longrightarrow>
                 list_all (\<lambda>c. priority (handle c) = p) (g b)"
  shows "keys_ascending (map (\<lambda>(p, b). (p, g b)) m) \<and>
         buckets_unique (map (\<lambda>(p, b). (p, g b)) m) \<and>
         buckets_keyed (map (\<lambda>(p, b). (p, g b)) m)"
proof -
  have "map fst (map (\<lambda>(p, b). (p, g b)) m) = map fst m" by (induction m) auto
  with assms(1) have "keys_ascending (map (\<lambda>(p, b). (p, g b)) m)"
    by (simp only: keys_ascending_def)
  moreover from assms(2,4) have "buckets_unique (map (\<lambda>(p, b). (p, g b)) m)"
    unfolding buckets_unique_def by (induction m) auto
  moreover from assms(3,5) have "buckets_keyed (map (\<lambda>(p, b). (p, g b)) m)"
    unfolding buckets_keyed_def by (induction m) auto
  ultimately show ?thesis by simp
qed

lemma Event_inv_UnhookClass:
  assumes "Event_inv ev" "UnhookClass as_Identifier cp ev = Inr ev'"
  shows "Event_inv ev'"
proof -
  let ?g = "filter (\<lambda>c. Identifier_value (identifier' (handle c)) \<noteq> as_Identifier cp)"
  from assms(2) have ev': "callList ev' = map (\<lambda>(p, b). (p, ?g b)) (callList ev)"
    and init: "initialized ev'"
    by (auto simp: UnhookClass_eq split: if_splits)
  from assms(1) have "keys_ascending (callList ev)" "buckets_unique (callList ev)"
    "buckets_keyed (callList ev)" by (simp_all add: Event_inv_def)
  then have "keys_ascending (callList ev') \<and> buckets_unique (callList ev') \<and>
             buckets_keyed (callList ev')"
    unfolding ev' by (rule Event_inv_map_buckets) (simp_all add: distinct_map_filter list_all_iff)
  with init show ?thesis by (simp add: Event_inv_def)
qed

lemma Event_inv_Clear:
  assumes "Event_inv ev" "Clear ev = Inr ev'"
  shows "Event_inv ev'"
proof -
  from assms(2) have ev': "callList ev' = map (\<lambda>(p, b). (p, (\<lambda>_. []) b)) (callList ev)"
    and init: "initialized ev'"
    by (auto simp: Clear_def split: if_splits)
  from assms(1) have "keys_ascending (callList ev)" "buckets_unique (callList ev)"
    "buckets_keyed (callList ev)" by (simp_all add: Event_inv_def)
  then have "keys_ascending (callList ev') \<and> buckets_unique (callList ev') \<and>
             buckets_keyed (callList ev')"
    unfolding ev' by (rule Event_inv_map_buckets) simp_all
  with init show ?thesis by (simp add: Event_inv_def)
qed

lemma Event_inv_ReplaceBound:
  assumes "Event_inv ev"
  shows "Event_inv (ReplaceBound r ev)"
proof -
  let ?g = "map (\<lambda>c. if class_ptr c = r then c\<lparr>class_ptr := boundTo ev\<rparr> else c)"
  have ev': "callList (ReplaceBound r ev) = map (\<lambda>(p, b). (p, ?g b)) (callList ev)"
    and init: "initialized (ReplaceBound r ev) = initialized ev"
    by (simp_all add: ReplaceBound_def)
  have pres: "list_all (\<lambda>c. priority (handle c) = p) (?g b)"
    if "list_all (\<lambda>c. priority (handle c) = p) b" for b :: "('a, 'b) Call list" and p
    using that by (induction b) auto
  from assms have "keys_ascending (callList ev)" "buckets_unique (callList ev)"
    "buckets_keyed (callList ev)" by (simp_all add: Event_inv_def)
  then have "keys_ascending (callList (ReplaceBound r ev)) \<and>
             buckets_unique (callList (ReplaceBound r ev)) \<and>
             buckets_keyed (callList (ReplaceBound r ev))"
    unfolding ev' by (rule Event_inv_map_buckets) (simp_all only: map_handle_rebind pres)
  moreover from assms have "initialized ev \<or> callList ev = []" by (simp add: Event_inv_def)
  then have "initialized (ReplaceBound r ev) \<or> callList (ReplaceBound r ev) = []"
    by (auto simp: ReplaceBound_def)
  ultimately show ?thesis by (simp add: Event_inv_def)
qed

lemma Event_inv_assign:
  assumes "Event_inv other"
  shows "Event_inv (assign this other)"
proof -
  let ?ev = "this\<lparr>callList := callList other, priority_ctr := priority_ctr other,
                  initialized := initialized other\<rparr>"
  from assms have "Event_inv ?ev" by (simp add: Event_inv_def)
  then show ?thesis by (simp add: assign_def Let_def Event_inv_ReplaceBound)
qed

section \<open>The calls stored and their order\<close>

lemma bucket_at_cleared: "bucket_at p (map (\<lambda>(q, b). (q, [])) m) = []"
  by (induction m) auto

lemma stored_store_cleared:
  "concat (map snd (bucket_store p b (map (\<lambda>(q, b). (q, [])) m))) = b"
  by (induction m) auto

lemma stored_priority_key:
  "buckets_keyed m \<Longrightarrow> c \<in> set (concat (map snd m)) \<Longrightarrow> priority (handle c) \<in> set (map fst m)"
  unfolding buckets_keyed_def by (induction m) (auto simp: list_all_iff)

lemma sorted_stored:
  assumes "keys_ascending m" "buckets_keyed m"
  shows "sorted_wrt (\<lambda>c d. sint (priority (handle c)) \<le> sint (priority (handle d)))
           (concat (map snd m))"
  using assms
proof (induction m)
  case Nil
  then show ?case by simp
next
  case (Cons e m)
  obtain q b where e: "e = (q, b)" by (cases e)
  from Cons.prems e have asc: "keys_ascending m"
    and above: "\<forall>k \<in> set (map fst m). Priority_less q k"
    and kd: "buckets_keyed m" and kb: "\<forall>c \<in> set b. priority (handle c) = q"
    by (auto simp: keys_ascending_def buckets_keyed_def list_all_iff)
  have "sorted_wrt (\<lambda>c d. sint (priority (handle c)) \<le> sint (priority (handle d))) b"
    using kb by (simp add: sorted_wrt_iff_nth_less)
  moreover have "sint (priority (handle c)) \<le> sint (priority (handle d))"
    if "c \<in> set b" "d \<in> set (concat (map snd m))" for c d
  proof -
    from stored_priority_key[OF kd that(2)] above
    have "Priority_less q (priority (handle d))" by blast
    with kb that(1) show ?thesis by (simp add: Priority_less_def)
  qed
  ultimately show ?case using e Cons.IH[OF asc kd] by (simp add: sorted_wrt_append)
qed

lemma distinct_stored:
  assumes "keys_ascending m" "buckets_unique m" "buckets_keyed m"
  shows "distinct (map handle (concat (map snd m)))"
  using assms
proof (induction m)
  case Nil
  then show ?case by simp
next
  case (Cons e m)
  obtain q b where e: "e = (q, b)" by (cases e)
  from Cons.prems e have asc: "keys_ascending m"
    and above: "\<forall>k \<in> set (map fst m). Priority_less q k"
    and uq: "buckets_unique m" and db: "distinct (map handle b)"
    and kd: "buckets_keyed m" and kb: "\<forall>c \<in> set b. priority (handle c) = q"
    by (auto simp: keys_ascending_def buckets_unique_def buckets_keyed_def list_all_iff)
  have "handle c \<noteq> handle d" if "c \<in> set b" "d \<in> set (concat (map snd m))" for c d
  proof
    assume eq: "handle c = handle d"
    from stored_priority_key[OF kd that(2)] above
    have "Priority_less q (priority (handle d))" by blast
    with kb that(1) eq show False by (metis Priority_less_irrefl)
  qed
  then have "handle ` set b \<inter> handle ` set (concat (map snd m)) = {}" by blast
  with db e Cons.IH[OF asc uq kd] show ?case by simp
qed

lemma mset_stored: "mset (concat (map snd m)) = (\<Sum>(p, b)\<leftarrow>m. mset b)"
  by (induction m) auto

lemma stored_ReplaceBound:
  "stored_calls (ReplaceBound r ev) =
     map (\<lambda>c. if class_ptr c = r then c\<lparr>class_ptr := boundTo ev\<rparr> else c) (stored_calls ev)"
  by (simp add: ReplaceBound_def stored_calls_def map_concat comp_def case_prod_unfold)

lemma keys_ReplaceBound: "map fst (callList (ReplaceBound r ev)) = map fst (callList ev)"
  by (simp add: ReplaceBound_def comp_def case_prod_unfold)

lemma lengths_ReplaceBound:
  "map (length \<circ> snd) (callList (ReplaceBound r ev)) = map (length \<circ> snd) (callList ev)"
  by (simp add: ReplaceBound_def comp_def case_prod_unfold)

section \<open>Sequences of hooks in order-preserving mode\<close>

lemma sint_Priority_bounds: "- 32768 \<le> sint (c :: Priority)" "sint (c :: Priority) < 32768"
  using sint_ge[of c] sint_lt[of c] by simp_all

lemma sint_Priority_succ:
  "sint (c :: Priority) < 32767 \<Longrightarrow> sint (c + 1) = sint c + 1"
  using sint_Priority_bounds(1)[of c]
  by (simp add: sint_word_ariths signed_take_bit_int_eq_self)

lemma sint_Priority_of_nat: "n < 32768 \<Longrightarrow> sint (word_of_nat n :: Priority) = int n"
  by (simp add: signed_of_nat signed_take_bit_int_eq_self)

lemma Hook_ordered_above:
  assumes "initialized ev" "\<forall>k \<in> set (map fst (callList ev)). Priority_less k (priority_ctr ev)"
  shows "Hook True P f ev =
           Inr (handle (Hook_call f (priority_ctr ev)),
                ev\<lparr>callList := callList ev @ [(priority_ctr ev, [Hook_call f (priority_ctr ev)])],
                   priority_ctr := priority_ctr ev + 1\<rparr>)"
  using assms
  by (simp add: Hook_eq[OF refl] bucket_at_above bucket_store_above)

lemma Hook_seq_ordered:
  assumes "initialized ev" "\<forall>k \<in> set (map fst (callList ev)). Priority_less k (priority_ctr ev)"
    and "sint (priority_ctr ev) + int (length rs) \<le> 32768"
  shows "Hook_seq True rs ev =
           Inr (map handle (ordered_calls (priority_ctr ev) rs),
                ev\<lparr>callList := callList ev @
                      map (\<lambda>c. (priority (handle c), [c])) (ordered_calls (priority_ctr ev) rs),
                   priority_ctr := priority_ctr ev + word_of_nat (length rs)\<rparr>)"
  using assms
proof (induction rs arbitrary: ev)
  case Nil
  then show ?case by simp
next
  case (Cons r rs)
  obtain P f where r: "r = (P, f)" by (cases r)
  let ?c = "priority_ctr ev"
  let ?ev1 = "ev\<lparr>callList := callList ev @ [(?c, [Hook_call f ?c])], priority_ctr := ?c + 1\<rparr>"
  have hook: "Hook True P f ev = Inr (handle (Hook_call f ?c), ?ev1)"
    using Cons.prems(1,2) by (rule Hook_ordered_above)
  show ?case
  proof (cases "rs = []")
    case True
    with hook r show ?thesis by (simp add: priority_Hook_call)
  next
    case False
    then have "0 < int (length rs)" by simp
    moreover from Cons.prems(3) have "sint ?c + 1 + int (length rs) \<le> 32768" by simp
    ultimately have lt: "sint ?c < 32767" by linarith
    then have succ: "sint (?c + 1) = sint ?c + 1" by (rule sint_Priority_succ)
    have init1: "initialized ?ev1" using Cons.prems(1) by simp
    have keys1: "\<forall>k \<in> set (map fst (callList ?ev1)). Priority_less k (priority_ctr ?ev1)"
      using Cons.prems(2) succ by (auto simp: Priority_less_def)
    have len1: "sint (priority_ctr ?ev1) + int (length rs) \<le> 32768"
      using Cons.prems(3) succ by simp
    from Cons.IH[OF init1 keys1 len1] hook r show ?thesis
      by (simp add: priority_Hook_call add.assoc)
  qed
qed

lemma stored_append: 
  "concat (map snd (m @ map (\<lambda>c. (priority (handle c), [c])) cs)) = concat (map snd m) @ cs"
  by (induction cs rule: rev_induct) simp_all

lemma length_ordered_calls: "length (ordered_calls c rs) = length rs"
  by (induction c rs rule: ordered_calls.induct) simp_all

lemma nth_ordered_calls:
  "i < length rs \<Longrightarrow> ordered_calls c rs ! i = Hook_call (snd (rs ! i)) (c + word_of_nat i)"
proof (induction c rs arbitrary: i rule: ordered_calls.induct)
  case (1 c)
  then show ?case by simp
next
  case (2 c P f rs)
  show ?case
  proof (cases i)
    case 0
    then show ?thesis by simp
  next
    case (Suc j)
    with 2 show ?thesis by (simp add: add.assoc)
  qed
qed

lemma Call_invoke_Hook_call: "Call_invoke (Hook_call f p) args = Hookable_invoke f args"
  by (cases f) (simp_all add: Call_invoke_def Call_func_def Call_member_def)

lemma fold_ordered_calls:
  "fold (\<lambda>c. Call_invoke c args) (ordered_calls c rs) s =
   fold (\<lambda>(P, f). Hookable_invoke f args) rs s"
  by (induction c rs arbitrary: s rule: ordered_calls.induct) (simp_all add: Call_invoke_Hook_call)

lemma Hook_seq_append:
  "Hook_seq Ordered (xs @ ys) ev =
     (case Hook_seq Ordered xs ev of
        Inl e \<Rightarrow> Inl e
      | Inr (hs, ev') \<Rightarrow>
          (case Hook_seq Ordered ys ev' of
             Inl e \<Rightarrow> Inl e
           | Inr (hs', ev'') \<Rightarrow> Inr (hs @ hs', ev'')))"
  by (induction xs arbitrary: ev) (auto split: sum.splits)

lemma bucket_store_below:
  "\<forall>q \<in> set (map fst m). Priority_less p q \<Longrightarrow> bucket_store p b m = (p, b) # m"
  by (cases m) (auto simp: Priority_less_irrefl)

lemma priority_ordered_calls:
  assumes "c \<in> set (ordered_calls c0 rs)"
  shows "\<exists>i < length rs. priority (handle c) = c0 + word_of_nat i"
proof -
  from assms obtain i where "i < length (ordered_calls c0 rs)" "ordered_calls c0 rs ! i = c"
    by (auto simp: in_set_conv_nth)
  then show ?thesis
    by (auto simp: length_ordered_calls nth_ordered_calls priority_Hook_call intro!: exI[of _ i])
qed

lemma numbered_hooks_Suc:
  "numbered_hooks (Suc n) =
     numbered_hooks n @ [(0, HookFunction (word_of_nat (Suc n)) (record_call n))]"
  by (simp add: numbered_hooks_def)

lemma length_numbered_hooks: "length (numbered_hooks n) = n"
  by (simp add: numbered_hooks_def)

lemma fold_numbered_hooks:
  "fold (\<lambda>(P, f). Hookable_invoke f ()) (numbered_hooks n) tr = tr @ [0..<n]"
  by (induction n) (simp_all add: numbered_hooks_Suc record_call_def, simp add: numbered_hooks_def)

lemma Hook_seq_fresh:
  assumes "length rs \<le> 32768"
  shows "Hook_seq True rs (Event_bound bindTo) =
           Inr (map handle (ordered_calls 0 rs),
                (Event_bound bindTo)\<lparr>callList := map (\<lambda>c. (priority (handle c), [c])) (ordered_calls 0 rs),
                   priority_ctr := word_of_nat (length rs)\<rparr>)"
proof -
  have "initialized (Event_bound bindTo :: ('a, 'b) Event)"
    "callList (Event_bound bindTo :: ('a, 'b) Event) = []"
    "priority_ctr (Event_bound bindTo :: ('a, 'b) Event) = 0"
    by (simp_all add: Event_bound_def BindTo_def Event_default_def)
  with assms Hook_seq_ordered[of "Event_bound bindTo :: ('a, 'b) Event" rs] show ?thesis by simp
qed

lemma Hook_seq_wrapped:
  assumes n: "n = 32768"
  defines "c \<equiv> Hook_call (HookFunction (word_of_nat (Suc n)) (record_call n)) (word_of_nat n)"
  shows "Hook_seq True (numbered_hooks (Suc n)) (Event_bound bindTo) =
           Inr (map handle (ordered_calls 0 (numbered_hooks n)) @ [handle c],
                (Event_bound bindTo)
                  \<lparr>callList := (word_of_nat n, [c]) #
                      map (\<lambda>c. (priority (handle c), [c])) (ordered_calls 0 (numbered_hooks n)),
                   priority_ctr := word_of_nat n + 1\<rparr>)"
proof -
  let ?rs = "numbered_hooks n"
  let ?m = "map (\<lambda>c. (priority (handle c), [c])) (ordered_calls 0 ?rs)"
  let ?ev1 = "(Event_bound bindTo :: (unit, nat list) Event)\<lparr>callList := ?m, priority_ctr := word_of_nat n\<rparr>"
  have first: "Hook_seq True ?rs (Event_bound bindTo) = Inr (map handle (ordered_calls 0 ?rs), ?ev1)"
    using Hook_seq_fresh[of ?rs bindTo] n by (simp add: length_numbered_hooks)
  have wrapped: "sint (word_of_nat n :: Priority) = - 32768" using n by simp
  have below: "\<forall>q \<in> set (map fst ?m). Priority_less (word_of_nat n) q"
  proof
    fix q assume "q \<in> set (map fst ?m)"
    then obtain d where "d \<in> set (ordered_calls 0 ?rs)" "q = priority (handle d)" by auto
    with priority_ordered_calls[of d 0 ?rs] obtain i where "i < n" "q = word_of_nat i"
      by (auto simp: length_numbered_hooks)
    with n have "sint q = int i" by (simp add: sint_Priority_of_nat)
    with wrapped show "Priority_less (word_of_nat n) q" by (simp add: Priority_less_def)
  qed
  have init: "initialized ?ev1" by (simp add: Event_bound_def BindTo_def)
  have "Hook True 0 (HookFunction (word_of_nat (Suc n)) (record_call n)) ?ev1 =
          Inr (handle c, ?ev1\<lparr>callList := (word_of_nat n, [c]) # ?m, priority_ctr := word_of_nat n + 1\<rparr>)"
    using init below by (simp add: Hook_eq[OF refl] bucket_at_below bucket_store_below c_def)
  with first show ?thesis
    by (simp add: numbered_hooks_Suc Hook_seq_append)
qed

lemma ordered_calls_ignore_priority:
  "ordered_calls c (map (\<lambda>(P, f). (P', f)) rs) = ordered_calls c rs"
  by (induction c rs rule: ordered_calls.induct) simp_all

lemma sint_priority_ordered_calls:
  assumes "length rs \<le> 32768"
  shows "map (sint \<circ> priority) (map handle (ordered_calls 0 rs)) = map int [0..<length rs]"
proof (rule nth_equalityI)
  show "length (map (sint \<circ> priority) (map handle (ordered_calls 0 rs))) =
        length (map int [0..<length rs])"
    by (simp add: length_ordered_calls)
next
  fix i assume "i < length (map (sint \<circ> priority) (map handle (ordered_calls 0 rs)))"
  then have i: "i < length rs" by (simp add: length_ordered_calls)
  with assms have "i < 32768" by simp
  with i show "map (sint \<circ> priority) (map handle (ordered_calls 0 rs)) ! i =
               map int [0..<length rs] ! i"
    by (simp add: length_ordered_calls nth_ordered_calls priority_Hook_call sint_Priority_of_nat)
qed

section \<open>Handles: ordering and equality\<close>

text \<open>
  C2 (as amended). \<^verbatim>\<open>a < b\<close> holds exactly when each of the three members of \<open>a\<close> is
  strictly below that of \<open>b\<close>. Whenever it holds, \<open>a\<close> precedes \<open>b\<close> lexicographically; it
  is irreflexive, transitive and asymmetric, and never holds together with \<^verbatim>\<open>a == b\<close>.
  \<^verbatim>\<open>a == b\<close> holds exactly when the three members are equal, that is when the handles are.
\<close>

theorem EventHandle_less_componentwise:
  "(EventHandle_less a b \<longleftrightarrow>
      sint (priority a) < sint (priority b) \<and>
      Identifier_value (identifier' a) < Identifier_value (identifier' b) \<and>
      function' a < function' b) \<and>
   (EventHandle_less a b \<longrightarrow> EventHandle_lex a b) \<and>
   \<not> EventHandle_less a a \<and>
   (EventHandle_less a b \<and> EventHandle_less b c \<longrightarrow> EventHandle_less a c) \<and>
   (EventHandle_less a b \<longrightarrow> \<not> EventHandle_less b a \<and> \<not> EventHandle_eq a b) \<and>
   (EventHandle_eq a b \<longleftrightarrow>
      priority a = priority b \<and> identifier' a = identifier' b \<and> function' a = function' b) \<and>
   (EventHandle_eq a b \<longleftrightarrow> a = b)"
  by (auto simp: EventHandle_less_def EventHandle_lex_def Priority_less_def EventHandle_eq_iff)

theorem EventHandle_less_componentwise_witness:
  "EventHandle_less \<lparr>priority = - 1, identifier' = Function, function' = 16\<rparr>
                    \<lparr>priority = 2, identifier' = Lambda, function' = 32\<rparr> \<and>
   EventHandle_lex \<lparr>priority = - 1, identifier' = Function, function' = 16\<rparr>
                   \<lparr>priority = 2, identifier' = Lambda, function' = 32\<rparr> \<and>
   \<not> EventHandle_eq \<lparr>priority = - 1, identifier' = Function, function' = 16\<rparr>
                    \<lparr>priority = 2, identifier' = Lambda, function' = 32\<rparr>"
  using EventHandle_less_componentwise
          [of "\<lparr>priority = - 1, identifier' = Function, function' = 16\<rparr>"
              "\<lparr>priority = 2, identifier' = Lambda, function' = 32\<rparr>"
              "\<lparr>priority = 3, identifier' = StdFunction, function' = 48\<rparr>"]
  by (simp add: Priority_less_def)

text \<open>
  C2 as stated fails: the handles (0, Function, 16) and (1, Function, 16) are in
  lexicographic order and are not equal, and \<^verbatim>\<open>operator<\<close> holds in neither direction.
\<close>

theorem EventHandle_less_not_lexicographic:
  "EventHandle_lex \<lparr>priority = 0, identifier' = Function, function' = 16\<rparr>
                   \<lparr>priority = 1, identifier' = Function, function' = 16\<rparr> \<and>
   \<not> EventHandle_less \<lparr>priority = 0, identifier' = Function, function' = 16\<rparr>
                      \<lparr>priority = 1, identifier' = Function, function' = 16\<rparr> \<and>
   \<not> EventHandle_less \<lparr>priority = 1, identifier' = Function, function' = 16\<rparr>
                      \<lparr>priority = 0, identifier' = Function, function' = 16\<rparr> \<and>
   \<not> EventHandle_eq \<lparr>priority = 0, identifier' = Function, function' = 16\<rparr>
                    \<lparr>priority = 1, identifier' = Function, function' = 16\<rparr>"
  by (simp add: EventHandle_lex_def EventHandle_less_def EventHandle_eq_def Priority_less_def)

section \<open>Copy assignment\<close>

lemma assign_self: "assign ev ev = ev"
  by (cases ev) (auto simp: assign_def ReplaceBound_def Let_def intro!: map_idI)

text \<open>
  C10. Copy assignment leaves \<^verbatim>\<open>boundTo\<close> of the destination as it was; the
  initialized flag, the order counter, the keys of the call list and the handles of its
  calls are those of the source. Assigned into a default-constructed event, the source
  gives its initialized flag and its call list, and the event stays bound to no owner.
\<close>

theorem assign_keeps_boundTo:
  "boundTo (assign this other) = boundTo this \<and>
   initialized (assign this other) = initialized other \<and>
   priority_ctr (assign this other) = priority_ctr other \<and>
   map fst (callList (assign this other)) = map fst (callList other) \<and>
   map (map handle \<circ> snd) (callList (assign this other)) =
     map (map handle \<circ> snd) (callList other) \<and>
   boundTo (assign Event_default other) = 0 \<and>
   callList (assign Event_default other) = callList other"
  by (auto simp: assign_def ReplaceBound_def Let_def Event_default_def)

section \<open>Uniqueness of handles\<close>

text \<open>
  C5. That no bucket holds two calls with equal handles is kept by every operation that
  changes an event: \<^verbatim>\<open>BindTo\<close>, copy assignment (from a source of which it holds),
  \<^verbatim>\<open>Hook\<close>, \<^verbatim>\<open>Unhook\<close>, \<^verbatim>\<open>UnhookClass\<close> (whatever the identifier of its sentinel
  handle) and \<^verbatim>\<open>Clear\<close>. A \<^verbatim>\<open>Hook\<close> whose
  handle is already in the bucket of its priority fails with the assertion of
  \<^verbatim>\<open>emplace_back\<close>.
\<close>

theorem unique_handles_preserved:
  assumes "buckets_unique (callList ev)"
  shows "buckets_unique (callList (BindTo bindTo ev)) \<and>
         (buckets_unique (callList other) \<longrightarrow> buckets_unique (callList (assign ev other))) \<and>
         (\<forall>h ev'. Hook Ordered P f ev = Inr (h, ev') \<longrightarrow> buckets_unique (callList ev')) \<and>
         (\<forall>ev'. Unhook h ev = Inr ev' \<longrightarrow> buckets_unique (callList ev')) \<and>
         (\<forall>ev'. UnhookClass as_Identifier cp ev = Inr ev' \<longrightarrow>
                 buckets_unique (callList ev')) \<and>
         (\<forall>ev'. Clear ev = Inr ev' \<longrightarrow> buckets_unique (callList ev')) \<and>
         (initialized ev \<and>
          handle (Hook_call f (if Ordered then priority_ctr ev else P))
            \<in> handle ` set (bucket_at (if Ordered then priority_ctr ev else P) (callList ev))
          \<longrightarrow> Hook Ordered P f ev = Inl DuplicateHook)"
proof (intro conjI allI impI)
  show "buckets_unique (callList (BindTo bindTo ev))"
    using assms by (simp add: BindTo_def)
  show "buckets_unique (callList (assign ev other))" if "buckets_unique (callList other)"
    using that by (rule buckets_unique_assign)
  show "buckets_unique (callList ev')" if "Hook Ordered P f ev = Inr (h, ev')" for h ev'
    using assms that by (rule buckets_unique_Hook)
  show "buckets_unique (callList ev')" if "Unhook h ev = Inr ev'" for ev'
    using assms that by (rule buckets_unique_Unhook)
  show "buckets_unique (callList ev')" if "UnhookClass as_Identifier cp ev = Inr ev'" for ev'
    using assms that by (rule buckets_unique_UnhookClass)
  show "buckets_unique (callList ev')" if "Clear ev = Inr ev'" for ev'
    using that by (rule buckets_unique_Clear)
  show "Hook Ordered P f ev = Inl DuplicateHook"
    if "initialized ev \<and>
          handle (Hook_call f (if Ordered then priority_ctr ev else P))
            \<in> handle ` set (bucket_at (if Ordered then priority_ctr ev else P) (callList ev))"
    using that by (simp add: Hook_eq[OF refl])
qed

theorem unique_handles_preserved_witness:
  "buckets_unique
     [(0, [Call_func (record_call 1) \<lparr>priority = 0, identifier' = Function, function' = 16\<rparr>])] \<and>
   handle (Hook_call (HookFunction 16 (record_call 1)) 0) \<in> handle ` set (bucket_at 0
     [(0, [Call_func (record_call 1) \<lparr>priority = 0, identifier' = Function, function' = 16\<rparr>])]) \<and>
   Hook False 0 (HookFunction 16 (record_call 1))
     \<lparr>boundTo = 0,
      callList = [(0, [Call_func (record_call 1)
                         \<lparr>priority = 0, identifier' = Function, function' = 16\<rparr>])],
      priority_ctr = 0, initialized = True\<rparr> = Inl DuplicateHook \<and>
   (case Hook False 0 (HookFunction 32 (record_call 2))
           \<lparr>boundTo = 0,
            callList = [(0, [Call_func (record_call 1)
                               \<lparr>priority = 0, identifier' = Function, function' = 16\<rparr>])],
            priority_ctr = 0, initialized = True\<rparr> of
      Inl e \<Rightarrow> False
    | Inr (h, ev') \<Rightarrow> buckets_unique (callList ev'))"
  using unique_handles_preserved
     [of "\<lparr>boundTo = 0,
           callList = [(0, [Call_func (record_call 1)
                              \<lparr>priority = 0, identifier' = Function, function' = 16\<rparr>])],
           priority_ctr = 0, initialized = True\<rparr>"
         0 "Event_bound 0" False 0 "HookFunction 16 (record_call 1)" EventHandle_default
         "\<lambda>cp. 4" 0]
    unique_handles_preserved
     [of "\<lparr>boundTo = 0,
           callList = [(0, [Call_func (record_call 1)
                              \<lparr>priority = 0, identifier' = Function, function' = 16\<rparr>])],
           priority_ctr = 0, initialized = True\<rparr>"
         0 "Event_bound 0" False 0 "HookFunction 32 (record_call 2)" EventHandle_default
         "\<lambda>cp. 4" 0]
  by (simp add: eval_defs)

section \<open>Unhook\<close>

text \<open>
  C6. \<^verbatim>\<open>Unhook(h)\<close> fails exactly when the bucket of \<open>priority h\<close> holds no call with
  the handle \<open>h\<close>. Otherwise it succeeds, the calls left are those whose handle is not
  \<open>h\<close>, in their order; exactly one call had the handle \<open>h\<close>; \<^verbatim>\<open>CallListSize\<close> is one
  less; and \<^verbatim>\<open>Invoke\<close> then runs the calls left and no other.
\<close>

theorem Unhook_removes_exactly_one:
  assumes "Event_inv ev"
  shows "((\<exists>e. Unhook h ev = Inl e) \<longleftrightarrow>
            h \<notin> handle ` set (bucket_at (priority h) (callList ev))) \<and>
         (h \<in> handle ` set (bucket_at (priority h) (callList ev)) \<longrightarrow>
            (\<exists>ev' n. Unhook h ev = Inr ev' \<and>
               stored_calls ev' = filter (\<lambda>c. handle c \<noteq> h) (stored_calls ev) \<and>
               length (filter (\<lambda>c. handle c = h) (stored_calls ev)) = 1 \<and>
               CallListSize ev = Inr (Suc n) \<and> CallListSize ev' = Inr n \<and>
               (\<forall>args s. Invoke ev' args s =
                  Inr (fold (\<lambda>c. Call_invoke c args)
                         (filter (\<lambda>c. handle c \<noteq> h) (stored_calls ev)) s))))"
proof (intro conjI impI)
  show "(\<exists>e. Unhook h ev = Inl e) \<longleftrightarrow> h \<notin> handle ` set (bucket_at (priority h) (callList ev))"
  proof (cases "initialized ev")
    case True
    then show ?thesis by (simp add: Unhook_eq)
  next
    case False
    with assms have "callList ev = []" by (simp add: Event_inv_def)
    with False show ?thesis by (simp add: Unhook_eq)
  qed
next
  assume mem: "h \<in> handle ` set (bucket_at (priority h) (callList ev))"
  then have "callList ev \<noteq> []" by auto
  with assms have init: "initialized ev" by (auto simp: Event_inv_def)
  with mem obtain ev' where un: "Unhook h ev = Inr ev'" by (simp add: Unhook_eq)
  then have init': "initialized ev'" by (auto simp: Unhook_eq split: if_splits)
  have st: "stored_calls ev' = filter (\<lambda>c. handle c \<noteq> h) (stored_calls ev)"
    using assms un by (rule stored_calls_Unhook)
  have len: "length (stored_calls ev) = Suc (length (stored_calls ev'))"
    using assms un by (rule length_stored_Unhook)
  have "length (filter (\<lambda>c. handle c = h) (stored_calls ev)) +
        length (filter (\<lambda>c. handle c \<noteq> h) (stored_calls ev)) = length (stored_calls ev)"
    by (rule sum_length_filter_compl)
  with st len have one: "length (filter (\<lambda>c. handle c = h) (stored_calls ev)) = 1" by simp
  show "\<exists>ev' n. Unhook h ev = Inr ev' \<and>
               stored_calls ev' = filter (\<lambda>c. handle c \<noteq> h) (stored_calls ev) \<and>
               length (filter (\<lambda>c. handle c = h) (stored_calls ev)) = 1 \<and>
               CallListSize ev = Inr (Suc n) \<and> CallListSize ev' = Inr n \<and>
               (\<forall>args s. Invoke ev' args s =
                  Inr (fold (\<lambda>c. Call_invoke c args)
                         (filter (\<lambda>c. handle c \<noteq> h) (stored_calls ev)) s))"
    using un st one len init init'
    by (intro exI[of _ ev'] exI[of _ "length (stored_calls ev')"])
       (simp add: CallListSize_eq Invoke_eq)
qed

theorem Unhook_removes_exactly_one_witness:
  "Event_inv \<lparr>boundTo = 0,
              callList = [(0, [Call_func (record_call 1)
                                 \<lparr>priority = 0, identifier' = Function, function' = 16\<rparr>,
                               Call_func (record_call 2)
                                 \<lparr>priority = 0, identifier' = Function, function' = 32\<rparr>])],
              priority_ctr = 0, initialized = True\<rparr> \<and>
   map handle (stored_calls
     (projr (Unhook \<lparr>priority = 0, identifier' = Function, function' = 16\<rparr>
        \<lparr>boundTo = 0,
         callList = [(0, [Call_func (record_call 1)
                            \<lparr>priority = 0, identifier' = Function, function' = 16\<rparr>,
                          Call_func (record_call 2)
                            \<lparr>priority = 0, identifier' = Function, function' = 32\<rparr>])],
         priority_ctr = 0, initialized = True\<rparr>))) =
     [\<lparr>priority = 0, identifier' = Function, function' = 32\<rparr>]"
  using Unhook_removes_exactly_one
     [of "\<lparr>boundTo = 0,
              callList = [(0, [Call_func (record_call 1)
                                 \<lparr>priority = 0, identifier' = Function, function' = 16\<rparr>,
                               Call_func (record_call 2)
                                 \<lparr>priority = 0, identifier' = Function, function' = 32\<rparr>])],
              priority_ctr = 0, initialized = True\<rparr>"
         "\<lparr>priority = 0, identifier' = Function, function' = 16\<rparr>"]
  by (simp add: eval_defs)

section \<open>Clear\<close>

text \<open>
  C9. \<^verbatim>\<open>Clear\<close> on an initialized event succeeds and leaves no subscriber:
  \<^verbatim>\<open>CallListSize\<close> returns 0 and \<^verbatim>\<open>Invoke\<close> leaves the world as it is, whatever the
  arguments. The event stays initialized and bound as before, and any \<^verbatim>\<open>Hook\<close> on it
  succeeds, after which the event holds that one call and \<^verbatim>\<open>Invoke\<close> runs it. On an
  event that is not initialized \<^verbatim>\<open>Clear\<close> fails with the assertion of
  \<^verbatim>\<open>AssertInitialized\<close>.
\<close>

theorem Clear_removes_all_subscribers:
  "(initialized ev \<longrightarrow>
      (\<exists>ev'. Clear ev = Inr ev' \<and> CallListSize ev' = Inr 0 \<and> stored_calls ev' = [] \<and>
         (\<forall>args s. Invoke ev' args s = Inr s) \<and>
         initialized ev' \<and> boundTo ev' = boundTo ev \<and>
         (\<forall>Ordered P f. \<exists>h ev''. Hook Ordered P f ev' = Inr (h, ev'') \<and>
            stored_calls ev'' = [Hook_call f (if Ordered then priority_ctr ev else P)] \<and>
            CallListSize ev'' = Inr 1 \<and>
            (\<forall>args s. Invoke ev'' args s =
               Inr (Call_invoke (Hook_call f (if Ordered then priority_ctr ev else P)) args s))))) \<and>
   (\<not> initialized ev \<longrightarrow> Clear ev = Inl NotInitialized)"
proof (intro conjI impI)
  assume init: "initialized ev"
  define ev' where "ev' = ev\<lparr>callList := map (\<lambda>(p, b). (p, [])) (callList ev)\<rparr>"
  have cl: "Clear ev = Inr ev'" using init by (simp add: Clear_def ev'_def)
  have st: "stored_calls ev' = []" by (simp add: stored_calls_def ev'_def comp_def case_prod_unfold)
  have i': "initialized ev'" "boundTo ev' = boundTo ev" "priority_ctr ev' = priority_ctr ev"
    using init by (simp_all add: ev'_def)
  have hook: "\<exists>h ev''. Hook Ordered P f ev' = Inr (h, ev'') \<and>
            stored_calls ev'' = [Hook_call f (if Ordered then priority_ctr ev else P)] \<and>
            CallListSize ev'' = Inr 1 \<and>
            (\<forall>args s. Invoke ev'' args s =
               Inr (Call_invoke (Hook_call f (if Ordered then priority_ctr ev else P)) args s))"
    for Ordered P f
    using init
    by (simp add: Hook_eq[OF refl] ev'_def bucket_at_cleared stored_calls_def stored_store_cleared
          CallListSize_eq Invoke_eq)
  show "\<exists>ev'. Clear ev = Inr ev' \<and> CallListSize ev' = Inr 0 \<and> stored_calls ev' = [] \<and>
         (\<forall>args s. Invoke ev' args s = Inr s) \<and>
         initialized ev' \<and> boundTo ev' = boundTo ev \<and>
         (\<forall>Ordered P f. \<exists>h ev''. Hook Ordered P f ev' = Inr (h, ev'') \<and>
            stored_calls ev'' = [Hook_call f (if Ordered then priority_ctr ev else P)] \<and>
            CallListSize ev'' = Inr 1 \<and>
            (\<forall>args s. Invoke ev'' args s =
               Inr (Call_invoke (Hook_call f (if Ordered then priority_ctr ev else P)) args s)))"
    using cl st i' hook by (intro exI[of _ ev']) (simp add: CallListSize_eq Invoke_eq)
next
  assume "\<not> initialized ev"
  then show "Clear ev = Inl NotInitialized" by (simp add: Clear_def)
qed

theorem Clear_removes_all_subscribers_witness:
  "initialized \<lparr>boundTo = 0,
                callList = [(0, [Call_func (record_call 1)
                                   \<lparr>priority = 0, identifier' = Function, function' = 16\<rparr>]),
                            (3, [Call_func (record_call 2)
                                   \<lparr>priority = 3, identifier' = Lambda, function' = 32\<rparr>])],
                priority_ctr = 0, initialized = True\<rparr> \<and>
   CallListSize (projr (Clear
               \<lparr>boundTo = 0,
                callList = [(0, [Call_func (record_call 1)
                                   \<lparr>priority = 0, identifier' = Function, function' = 16\<rparr>]),
                            (3, [Call_func (record_call 2)
                                   \<lparr>priority = 3, identifier' = Lambda, function' = 32\<rparr>])],
                priority_ctr = 0, initialized = True\<rparr>)) = Inr 0 \<and>
   Invoke (projr (Clear
               \<lparr>boundTo = 0,
                callList = [(0, [Call_func (record_call 1)
                                   \<lparr>priority = 0, identifier' = Function, function' = 16\<rparr>]),
                            (3, [Call_func (record_call 2)
                                   \<lparr>priority = 3, identifier' = Lambda, function' = 32\<rparr>])],
                priority_ctr = 0, initialized = True\<rparr>)) () [] = Inr []"
  using Clear_removes_all_subscribers
    [of "\<lparr>boundTo = 0,
                callList = [(0, [Call_func (record_call 1)
                                   \<lparr>priority = 0, identifier' = Function, function' = 16\<rparr>]),
                            (3, [Call_func (record_call 2)
                                   \<lparr>priority = 3, identifier' = Lambda, function' = 32\<rparr>])],
                priority_ctr = 0, initialized = True\<rparr>"]
  by (simp add: eval_defs)

section \<open>Invoke\<close>

text \<open>
  C3. On an initialized event \<^verbatim>\<open>Invoke\<close> runs the stored calls bucket after bucket,
  each with the arguments it was given. Every call of every bucket is run once (the calls
  run are, as a multiset, those of the buckets, and no handle occurs twice among them);
  the keys of the buckets ascend strictly as signed numbers, and the priorities of the
  handles never descend along the calls run. A call hooked for a member function runs the
  member function on its class pointer, also after that pointer was rewritten; a call
  hooked for a function, a lambda or a \<^verbatim>\<open>std::function\<close> runs it on the arguments. With
  three functions hooked at the priorities 5, 1 and 3, \<^verbatim>\<open>Invoke\<close> runs the one of
  priority 1, then that of priority 3, then that of priority 5.
\<close>

theorem Invoke_ascending_priority:
  assumes "Event_inv ev" and "initialized ev"
  shows "Invoke ev args s = Inr (fold (\<lambda>c. Call_invoke c args) (stored_calls ev) s) \<and>
         mset (stored_calls ev) = (\<Sum>(p, b)\<leftarrow>callList ev. mset b) \<and>
         distinct (map handle (stored_calls ev)) \<and>
         sorted_wrt (\<lambda>p q. sint p < sint q) (map fst (callList ev)) \<and>
         sorted_wrt (\<lambda>c d. sint (priority (handle c)) \<le> sint (priority (handle d)))
           (stored_calls ev) \<and>
         Call_invoke (Hook_call (HookMember cp pmf memfn) P) args = memfn cp args \<and>
         Call_invoke ((Hook_call (HookMember cp pmf memfn) P)\<lparr>class_ptr := cp'\<rparr>) args =
           memfn cp' args \<and>
         Call_invoke (Hook_call (HookFunction a func) P) args = func args \<and>
         Call_invoke (Hook_call (HookLambda a func) P) args = func args \<and>
         Call_invoke (Hook_call (HookStdFunction a func) P) args = func args \<and>
         (\<exists>hs ev3. Hook_seq False [(5, HookFunction a5 f5), (1, HookFunction a1 f1),
                                   (3, HookFunction a3 f3)] (Event_bound bindTo) = Inr (hs, ev3) \<and>
            map priority hs = [5, 1, 3] \<and>
            Invoke ev3 args s = Inr (f5 args (f3 args (f1 args s))))"
proof -
  from assms(1) have asc: "keys_ascending (callList ev)" and uq: "buckets_unique (callList ev)"
    and kd: "buckets_keyed (callList ev)" by (simp_all add: Event_inv_def)
  have 1: "Invoke ev args s = Inr (fold (\<lambda>c. Call_invoke c args) (stored_calls ev) s)"
    using assms(2) by (simp add: Invoke_eq)
  have 2: "mset (stored_calls ev) = (\<Sum>(p, b)\<leftarrow>callList ev. mset b)"
    by (simp add: stored_calls_def mset_stored)
  have 3: "distinct (map handle (stored_calls ev))"
    unfolding stored_calls_def using asc uq kd by (rule distinct_stored)
  have 4: "sorted_wrt (\<lambda>p q. sint p < sint q) (map fst (callList ev))"
    using asc by (simp add: keys_ascending_def Priority_less_def[abs_def])
  have 5: "sorted_wrt (\<lambda>c d. sint (priority (handle c)) \<le> sint (priority (handle d)))
           (stored_calls ev)"
    unfolding stored_calls_def using asc kd by (rule sorted_stored)
  have 6: "Call_invoke (Hook_call (HookMember cp pmf memfn) P) args = memfn cp args"
    "Call_invoke ((Hook_call (HookMember cp pmf memfn) P)\<lparr>class_ptr := cp'\<rparr>) args =
           memfn cp' args"
    "Call_invoke (Hook_call (HookFunction a func) P) args = func args"
    "Call_invoke (Hook_call (HookLambda a func) P) args = func args"
    "Call_invoke (Hook_call (HookStdFunction a func) P) args = func args"
    by (simp_all add: Call_invoke_def Call_member_def Call_func_def)
  have 7: "\<exists>hs ev3. Hook_seq False [(5, HookFunction a5 f5), (1, HookFunction a1 f1),
                                   (3, HookFunction a3 f3)] (Event_bound bindTo) = Inr (hs, ev3) \<and>
            map priority hs = [5, 1, 3] \<and>
            Invoke ev3 args s = Inr (f5 args (f3 args (f1 args s)))"
    by (simp add: eval_defs)
  from 1 2 3 4 5 6 7 show ?thesis by blast
qed

theorem Invoke_ascending_priority_witness:
  "Event_inv \<lparr>boundTo = 0,
      callList = [(- 2, [Call_member 64 record_object
                          \<lparr>priority = - 2, identifier' = MemberFunction, function' = 72\<rparr>]),
                  (1, [Call_func (record_call 1)
                          \<lparr>priority = 1, identifier' = Function, function' = 16\<rparr>]),
                  (5, [Call_func (record_call 5)
                          \<lparr>priority = 5, identifier' = Function, function' = 32\<rparr>])],
      priority_ctr = 0, initialized = True\<rparr> \<and>
   Invoke \<lparr>boundTo = 0,
      callList = [(- 2, [Call_member 64 record_object
                          \<lparr>priority = - 2, identifier' = MemberFunction, function' = 72\<rparr>]),
                  (1, [Call_func (record_call 1)
                          \<lparr>priority = 1, identifier' = Function, function' = 16\<rparr>]),
                  (5, [Call_func (record_call 5)
                          \<lparr>priority = 5, identifier' = Function, function' = 32\<rparr>])],
      priority_ctr = 0, initialized = True\<rparr> () [] = Inr [64, 1, 5]"
  using Invoke_ascending_priority
    [of "\<lparr>boundTo = 0,
      callList = [(- 2, [Call_member 64 record_object
                          \<lparr>priority = - 2, identifier' = MemberFunction, function' = 72\<rparr>]),
                  (1, [Call_func (record_call 1)
                          \<lparr>priority = 1, identifier' = Function, function' = 16\<rparr>]),
                  (5, [Call_func (record_call 5)
                          \<lparr>priority = 5, identifier' = Function, function' = 32\<rparr>])],
      priority_ctr = 0, initialized = True\<rparr>" "()" "[]" 64 8 record_object 0 0 16 "record_call 1"
      16 "record_call 1" 16 "record_call 1" 16 "record_call 1" 0]
  by (simp add: eval_defs)

section \<open>Rebinding on copy assignment\<close>

text \<open>
  C7. Copy assignment gives the destination the order counter of the source and its
  buckets: the same keys, and in each bucket the same calls with their handles and
  thunks. When both events are bound to an owner, a copied call whose class pointer is the
  owner of the source has it rewritten to the owner of the destination; every other call
  is copied as it is, and when one of the two events has no owner the call list is copied
  as it is. A call hooked for a function, a lambda or a \<^verbatim>\<open>std::function\<close> has a null
  class pointer, hence is never rewritten when the source has an owner.
\<close>

theorem assign_rebinds_owner:
  "priority_ctr (assign (this :: ('a, 's) Event) other) = priority_ctr other \<and>
   map fst (callList (assign this other)) = map fst (callList other) \<and>
   map (length \<circ> snd) (callList (assign this other)) = map (length \<circ> snd) (callList other) \<and>
   stored_calls (assign this other) =
     map (\<lambda>c. if boundTo this \<noteq> 0 \<and> boundTo other \<noteq> 0 \<and> class_ptr c = boundTo other
               then c\<lparr>class_ptr := boundTo this\<rparr> else c) (stored_calls other) \<and>
   map handle (stored_calls (assign this other)) = map handle (stored_calls other) \<and>
   map Call_function (stored_calls (assign this other)) = map Call_function (stored_calls other) \<and>
   (boundTo this = 0 \<or> boundTo other = 0 \<longrightarrow> callList (assign this other) = callList other) \<and>
   (\<forall>c \<in> set (stored_calls other). class_ptr c \<noteq> boundTo other \<longrightarrow>
        c \<in> set (stored_calls (assign this other))) \<and>
   (boundTo other \<noteq> 0 \<longrightarrow>
      (\<forall>c \<in> set (stored_calls other). class_ptr c = 0 \<longrightarrow>
          c \<in> set (stored_calls (assign this other)))) \<and>
   (boundTo this \<noteq> 0 \<and> boundTo other \<noteq> 0 \<longrightarrow>
      (\<forall>c \<in> set (stored_calls other). class_ptr c = boundTo other \<longrightarrow>
          c\<lparr>class_ptr := boundTo this\<rparr> \<in> set (stored_calls (assign this other)))) \<and>
   class_ptr (Hook_call (HookFunction a func) P :: ('a, 's) Call) = 0 \<and>
   class_ptr (Hook_call (HookLambda a func) P :: ('a, 's) Call) = 0 \<and>
   class_ptr (Hook_call (HookStdFunction a func) P :: ('a, 's) Call) = 0 \<and>
   class_ptr (Hook_call (HookMember cp pmf memfn) P :: ('a, 's) Call) = cp"
proof -
  let ?rb = "\<lambda>c :: ('a, 's) Call. if boundTo this \<noteq> 0 \<and> boundTo other \<noteq> 0 \<and> class_ptr c = boundTo other
               then c\<lparr>class_ptr := boundTo this\<rparr> else c"
  have st: "stored_calls (assign this other) = map ?rb (stored_calls other)"
    by (simp add: assign_def Let_def stored_ReplaceBound) (simp add: stored_calls_def)
  have keys: "map fst (callList (assign this other)) = map fst (callList other)"
    "map (length \<circ> snd) (callList (assign this other)) = map (length \<circ> snd) (callList other)"
    "priority_ctr (assign this other) = priority_ctr other"
    by (simp_all add: assign_def Let_def keys_ReplaceBound lengths_ReplaceBound)
       (simp_all add: ReplaceBound_def)
  have h: "map handle (map ?rb cs) = map handle cs"
    "map Call_function (map ?rb cs) = map Call_function cs" for cs
    by (induction cs) auto
  have same: "boundTo this = 0 \<or> boundTo other = 0 \<longrightarrow> callList (assign this other) = callList other"
    by (auto simp: assign_def Let_def)
  have keep1: "\<forall>c \<in> set (stored_calls other). class_ptr c \<noteq> boundTo other \<longrightarrow>
        c \<in> set (stored_calls (assign this other))"
    unfolding st by (force simp: image_iff)
  have keep2: "boundTo other \<noteq> 0 \<longrightarrow>
      (\<forall>c \<in> set (stored_calls other). class_ptr c = 0 \<longrightarrow>
          c \<in> set (stored_calls (assign this other)))"
    unfolding st by (force simp: image_iff)
  have moved: "boundTo this \<noteq> 0 \<and> boundTo other \<noteq> 0 \<longrightarrow>
      (\<forall>c \<in> set (stored_calls other). class_ptr c = boundTo other \<longrightarrow>
          c\<lparr>class_ptr := boundTo this\<rparr> \<in> set (stored_calls (assign this other)))"
    unfolding st by (force simp: image_iff)
  have ctor: "class_ptr (Hook_call (HookFunction a func) P :: ('a, 's) Call) = 0"
   "class_ptr (Hook_call (HookLambda a func) P :: ('a, 's) Call) = 0"
   "class_ptr (Hook_call (HookStdFunction a func) P :: ('a, 's) Call) = 0"
   "class_ptr (Hook_call (HookMember cp pmf memfn) P :: ('a, 's) Call) = cp"
    by (simp_all add: Call_func_def Call_member_def)
  have hs: "map handle (stored_calls (assign this other)) = map handle (stored_calls other)"
    "map Call_function (stored_calls (assign this other)) = map Call_function (stored_calls other)"
    unfolding st by (rule h)+
  from keys st hs same keep1 keep2 moved ctor show ?thesis by (intro conjI)
qed

theorem assign_rebinds_owner_witness:
  "map class_ptr (stored_calls (assign
      (Event_bound 96 :: (unit, nat list) Event)
      \<lparr>boundTo = 64,
       callList = [(0, [Call_member 64 record_object
                          \<lparr>priority = 0, identifier' = MemberFunction, function' = 72\<rparr>,
                        Call_member 80 record_object
                          \<lparr>priority = 0, identifier' = MemberFunction, function' = 88\<rparr>]),
                   (2, [Call_func (record_call 1)
                          \<lparr>priority = 2, identifier' = Function, function' = 16\<rparr>])],
       priority_ctr = 7, initialized = True\<rparr>)) = [96, 80, 0] \<and>
   priority_ctr (assign
      (Event_bound 96 :: (unit, nat list) Event)
      \<lparr>boundTo = 64,
       callList = [(0, [Call_member 64 record_object
                          \<lparr>priority = 0, identifier' = MemberFunction, function' = 72\<rparr>,
                        Call_member 80 record_object
                          \<lparr>priority = 0, identifier' = MemberFunction, function' = 88\<rparr>]),
                   (2, [Call_func (record_call 1)
                          \<lparr>priority = 2, identifier' = Function, function' = 16\<rparr>])],
       priority_ctr = 7, initialized = True\<rparr>) = 7"
  using assign_rebinds_owner
    [of "Event_bound 96 :: (unit, nat list) Event"
      "\<lparr>boundTo = 64,
       callList = [(0, [Call_member 64 record_object
                          \<lparr>priority = 0, identifier' = MemberFunction, function' = 72\<rparr>,
                        Call_member 80 record_object
                          \<lparr>priority = 0, identifier' = MemberFunction, function' = 88\<rparr>]),
                   (2, [Call_func (record_call 1)
                          \<lparr>priority = 2, identifier' = Function, function' = 16\<rparr>])],
       priority_ctr = 7, initialized = True\<rparr>" 16 "record_call 1" 0 64 8 record_object]
  by (simp add: eval_defs)

section \<open>Hook order in order-preserving mode\<close>

text \<open>
  While the counter has not wrapped, order-preserving mode does what its name says: a
  sequence of at most 32768 \<^verbatim>\<open>Hook\<close> calls on a newly bound event succeeds; the hook
  number \<open>i\<close>, counted from 0, takes the value \<open>i\<close> of the counter for its priority,
  whatever priority argument it was given (any other priority arguments give the same
  handles and the same event), and \<^verbatim>\<open>Invoke\<close> then runs what was hooked in the order of
  the hooks.
\<close>

lemma Hook_ordered_invokes_in_hook_order:
  assumes "length rs \<le> 32768"
  shows "\<exists>hs ev. Hook_seq True rs (Event_bound bindTo) = Inr (hs, ev) \<and>
           length hs = length rs \<and> length (stored_calls ev) = length rs \<and>
           (\<forall>i < length rs.
              stored_calls ev ! i = Hook_call (snd (rs ! i)) (word_of_nat i) \<and>
              hs ! i = handle (stored_calls ev ! i) \<and> priority (hs ! i) = word_of_nat i) \<and>
           (\<forall>args s. Invoke ev args s = Inr (fold (\<lambda>(P, f). Hookable_invoke f args) rs s)) \<and>
           Hook_seq True (map (\<lambda>(P, f). (P', f)) rs) (Event_bound bindTo) = Inr (hs, ev)"
proof -
  let ?ev = "(Event_bound bindTo)\<lparr>callList := map (\<lambda>c. (priority (handle c), [c])) (ordered_calls 0 rs),
                   priority_ctr := word_of_nat (length rs)\<rparr>"
  have run: "Hook_seq True rs (Event_bound bindTo) = Inr (map handle (ordered_calls 0 rs), ?ev)"
    using assms by (rule Hook_seq_fresh)
  have st: "stored_calls ?ev = ordered_calls 0 rs"
    using stored_append[of "[]" "ordered_calls 0 rs"] by (simp add: stored_calls_def)
  have nth: "\<forall>i < length rs.
              stored_calls ?ev ! i = Hook_call (snd (rs ! i)) (word_of_nat i) \<and>
              map handle (ordered_calls 0 rs) ! i = handle (stored_calls ?ev ! i) \<and>
              priority (map handle (ordered_calls 0 rs) ! i) = word_of_nat i"
    unfolding st by (simp add: nth_ordered_calls length_ordered_calls priority_Hook_call)
  have inv: "\<forall>args s. Invoke ?ev args s = Inr (fold (\<lambda>(P, f). Hookable_invoke f args) rs s)"
    unfolding Invoke_eq st by (simp add: fold_ordered_calls Event_bound_def BindTo_def)
  have "length (map (\<lambda>(P, f). (P', f)) rs) \<le> 32768" using assms by simp
  from Hook_seq_fresh[OF this, of bindTo]
  have ign: "Hook_seq True (map (\<lambda>(P, f). (P', f)) rs) (Event_bound bindTo) =
               Inr (map handle (ordered_calls 0 rs), ?ev)"
    by (simp add: ordered_calls_ignore_priority)
  from run st nth inv ign show ?thesis
    by (intro exI[of _ "map handle (ordered_calls 0 rs)"] exI[of _ ?ev])
       (simp add: length_ordered_calls priority_Hook_call)
qed

lemma Hook_ordered_invokes_in_hook_order_example:
  "length [(5 :: Priority, HookFunction 16 (record_call 1)),
           (1, HookMember 64 8 record_object),
           (3, HookLambda 32 (record_call 2))] \<le> 32768 \<and>
   map priority (fst (projr (Hook_seq True
          [(5, HookFunction 16 (record_call 1)),
           (1, HookMember 64 8 record_object),
           (3, HookLambda 32 (record_call 2))] (Event_bound 0)))) = [0, 1, 2] \<and>
   Invoke (snd (projr (Hook_seq True
          [(5, HookFunction 16 (record_call 1)),
           (1, HookMember 64 8 record_object),
           (3, HookLambda 32 (record_call 2))] (Event_bound 0)))) () [] = Inr [1, 64, 2]"
  using Hook_ordered_invokes_in_hook_order
    [of "[(5, HookFunction 16 (record_call 1)),
           (1, HookMember 64 8 record_object),
           (3, HookLambda 32 (record_call 2))]" 0 0]
  by (simp add: eval_defs)

text \<open>
  C4 fails on the code. In order-preserving mode \<^verbatim>\<open>Invoke\<close> is to run the callables in
  the order of their hooks, whatever their number; \<^verbatim>\<open>KeepOrder\<close> is documented so. With
  32769 functions hooked on a newly bound event, every \<^verbatim>\<open>Hook\<close> succeeds, but after
  32768 of them the counter has wrapped to -32768: the function hooked last takes the
  lowest priority there is and is run first by \<^verbatim>\<open>Invoke\<close>, where the order of the hooks
  has it last.
\<close>

theorem Hook_ordered_wraps_after_32768:
  "\<not> isl (Hook_seq True (numbered_hooks 32769) (Event_bound 0)) \<and>
   Invoke (snd (projr (Hook_seq True (numbered_hooks 32769) (Event_bound 0)))) () [] =
     Inr (32768 # [0..<32768]) \<and>
   fold (\<lambda>(P, f). Hookable_invoke f ()) (numbered_hooks 32769) [] = [0..<32769] \<and>
   32768 # [0..<32768] \<noteq> [0..<32769]"
proof -
  define n :: nat where "n = 32768"
  have Sn: "Suc n = 32769" by (simp add: n_def)
  let ?c = "Hook_call (HookFunction (word_of_nat (Suc n)) (record_call n)) (word_of_nat n)"
  let ?ev = "(Event_bound 0 :: (unit, nat list) Event)
                  \<lparr>callList := (word_of_nat n, [?c]) #
                      map (\<lambda>c. (priority (handle c), [c])) (ordered_calls 0 (numbered_hooks n)),
                   priority_ctr := word_of_nat n + 1\<rparr>"
  have run: "Hook_seq True (numbered_hooks (Suc n)) (Event_bound 0) =
               Inr (map handle (ordered_calls 0 (numbered_hooks n)) @ [handle ?c], ?ev)"
    using Hook_seq_wrapped[OF n_def, of 0] by simp
  have st: "stored_calls ?ev = ?c # ordered_calls 0 (numbered_hooks n)"
    using stored_append[of "[]" "ordered_calls 0 (numbered_hooks n)"]
    by (simp add: stored_calls_def)
  have "Invoke ?ev () [] = Inr (n # [0..<n])"
    unfolding Invoke_eq st
    by (simp add: Event_bound_def BindTo_def fold_ordered_calls fold_numbered_hooks
          Call_invoke_Hook_call record_call_def del: Hook_call.simps)
  with run have 1: "\<not> isl (Hook_seq True (numbered_hooks (Suc n)) (Event_bound 0))"
    and 2: "Invoke (snd (projr (Hook_seq True (numbered_hooks (Suc n)) (Event_bound 0)))) () [] =
              Inr (n # [0..<n])"
    by simp_all
  have 3: "fold (\<lambda>(P, f). Hookable_invoke f ()) (numbered_hooks (Suc n)) [] = [0..<Suc n]"
    using fold_numbered_hooks[of "Suc n" "[]"] by (simp only: append_Nil)
  have "hd [0..<Suc n] = 0" by (simp only: hd_upt zero_less_Suc)
  moreover have "hd (n # [0..<n]) = n" by (simp only: list.sel)
  ultimately have 4: "n # [0..<n] \<noteq> [0..<Suc n]" using n_def by (metis zero_neq_numeral)
  from 1 2 3 4 show ?thesis unfolding Sn unfolding n_def by (intro conjI)
qed

section \<open>The order counter\<close>

text \<open>
  What a \<^verbatim>\<open>Hook\<close> that succeeds does to the counter. In order-preserving mode the handle
  returned has the value of the counter for its priority and the counter is one higher
  modulo \<open>2 ^ 16\<close>: one higher as a signed number while it is below 32767. Otherwise the
  counter is left alone. Over at most 32768 hooks on a newly bound event the priorities
  of the handles are 0, 1, 2, ..., strictly ascending, and the counter ends at the number
  of hooks.
\<close>

lemma priority_counter_advances:
  "(Hook True P f ev = Inr (h, ev') \<longrightarrow>
      priority h = priority_ctr ev \<and> priority_ctr ev' = priority_ctr ev + 1 \<and>
      (sint (priority_ctr ev) < 32767 \<longrightarrow> sint (priority_ctr ev') = sint (priority_ctr ev) + 1) \<and>
      (sint (priority_ctr ev) = 32767 \<longrightarrow> sint (priority_ctr ev') = - 32768)) \<and>
   (Hook False P f ev = Inr (h, ev') \<longrightarrow> priority h = P \<and> priority_ctr ev' = priority_ctr ev) \<and>
   (length rs \<le> 32768 \<longrightarrow>
      (\<exists>hs ev''. Hook_seq True rs (Event_bound bindTo) = Inr (hs, ev'') \<and>
         map (sint \<circ> priority) hs = map int [0..<length rs] \<and>
         sorted_wrt (\<lambda>a b. sint (priority a) < sint (priority b)) hs \<and>
         priority_ctr ev'' = word_of_nat (length rs)))"
proof (intro conjI impI)
  assume hook: "Hook True P f ev = Inr (h, ev')"
  then show "priority h = priority_ctr ev" and nxt: "priority_ctr ev' = priority_ctr ev + 1"
    by (auto simp: Hook_eq[OF refl] priority_Hook_call split: if_splits)
  show "sint (priority_ctr ev') = sint (priority_ctr ev) + 1" if "sint (priority_ctr ev) < 32767"
    using that nxt by (simp add: sint_Priority_succ)
  show "sint (priority_ctr ev') = - 32768" if "sint (priority_ctr ev) = 32767"
  proof -
    have "sint (priority_ctr ev) = sint (32767 :: Priority)" using that by simp
    then have "priority_ctr ev = 32767" by (rule signed_word_eqI)
    with nxt show ?thesis by simp
  qed
next
  assume "Hook False P f ev = Inr (h, ev')"
  then show "priority h = P" and "priority_ctr ev' = priority_ctr ev"
    by (auto simp: Hook_eq[OF refl] priority_Hook_call split: if_splits)
next
  assume len: "length rs \<le> 32768"
  let ?hs = "map handle (ordered_calls 0 rs)"
  let ?ev = "(Event_bound bindTo)\<lparr>callList := map (\<lambda>c. (priority (handle c), [c])) (ordered_calls 0 rs),
                   priority_ctr := word_of_nat (length rs)\<rparr>"
  have run: "Hook_seq True rs (Event_bound bindTo) = Inr (?hs, ?ev)"
    using len by (rule Hook_seq_fresh)
  have pr: "map (sint \<circ> priority) ?hs = map int [0..<length rs]"
    using len by (rule sint_priority_ordered_calls)
  have "sorted_wrt (<) (map int [0..<length rs])"
    by (simp add: sorted_wrt_map del: upt.simps)
  then have "sorted_wrt (<) (map (sint \<circ> priority) ?hs)" by (simp only: pr)
  then have so: "sorted_wrt (\<lambda>a b. sint (priority a) < sint (priority b)) ?hs"
    by (simp only: sorted_wrt_map comp_def)
  from run pr so
  show "\<exists>hs ev''. Hook_seq True rs (Event_bound bindTo) = Inr (hs, ev'') \<and>
         map (sint \<circ> priority) hs = map int [0..<length rs] \<and>
         sorted_wrt (\<lambda>a b. sint (priority a) < sint (priority b)) hs \<and>
         priority_ctr ev'' = word_of_nat (length rs)"
    by (intro exI[of _ ?hs] exI[of _ ?ev]) simp
qed

lemma priority_counter_advances_example:
  "Hook True 9 (HookFunction 16 (record_call 1)) (Event_bound 0) =
     Inr (\<lparr>priority = 0, identifier' = Function, function' = 16\<rparr>,
          \<lparr>boundTo = 0,
           callList = [(0, [Call_func (record_call 1)
                              \<lparr>priority = 0, identifier' = Function, function' = 16\<rparr>])],
           priority_ctr = 1, initialized = True\<rparr>) \<and>
   sint (priority_ctr (Event_bound 0 :: (unit, nat list) Event)) < 32767 \<and>
   length [(9 :: Priority, HookFunction 16 (record_call 1)), (4, HookFunction 32 (record_call 2))]
     \<le> 32768 \<and>
   map priority (fst (projr (Hook_seq True
      [(9, HookFunction 16 (record_call 1)), (4, HookFunction 32 (record_call 2))]
      (Event_bound 0)))) = [0, 1]"
  using priority_counter_advances
    [of 9 "HookFunction 16 (record_call 1)" "Event_bound 0"
        "\<lparr>priority = 0, identifier' = Function, function' = 16\<rparr>"
        "\<lparr>boundTo = 0,
           callList = [(0, [Call_func (record_call 1)
                              \<lparr>priority = 0, identifier' = Function, function' = 16\<rparr>])],
           priority_ctr = 1, initialized = True\<rparr>"
        "[(9, HookFunction 16 (record_call 1)), (4, HookFunction 32 (record_call 2))]" 0]
  by (simp add: eval_defs)

text \<open>
  C8 fails on the code. In order-preserving mode every \<^verbatim>\<open>Hook\<close> is to see a value of
  the counter strictly above the one before; \<^verbatim>\<open>priority_\<close> is documented to increase on
  each hook. Among 32769 hooks on a newly bound event, all of which succeed, hook number
  32767 sees the counter at 32767 and the next one sees it at -32768.
\<close>

theorem priority_counter_wraps:
  "\<not> isl (Hook_seq True (numbered_hooks 32769) (Event_bound 0)) \<and>
   sint (priority (fst (projr (Hook_seq True (numbered_hooks 32769) (Event_bound 0))) ! 32767)) =
     32767 \<and>
   sint (priority (fst (projr (Hook_seq True (numbered_hooks 32769) (Event_bound 0))) ! 32768)) =
     - 32768"
proof -
  define n :: nat where "n = 32768"
  have Sn: "Suc n = 32769" by (simp add: n_def)
  let ?c = "Hook_call (HookFunction (word_of_nat (Suc n)) (record_call n)) (word_of_nat n)"
  let ?hs = "map handle (ordered_calls 0 (numbered_hooks n)) @ [handle ?c]"
  obtain ev where run: "Hook_seq True (numbered_hooks (Suc n)) (Event_bound 0) = Inr (?hs, ev)"
    using Hook_seq_wrapped[OF n_def, of 0] by simp
  have len: "length (map handle (ordered_calls 0 (numbered_hooks n))) = n"
    by (simp add: length_ordered_calls length_numbered_hooks)
  have "?hs ! n = handle ?c" using len by (metis nth_append_length)
  then have last: "sint (priority (?hs ! n)) = - 32768"
    by (simp only: priority_Hook_call) (simp add: n_def)
  have m: "n - 1 < length (numbered_hooks n)" by (simp add: length_numbered_hooks n_def)
  have "?hs ! (n - 1) = handle (ordered_calls 0 (numbered_hooks n) ! (n - 1))"
    using len m by (simp add: nth_append length_numbered_hooks)
  then have "priority (?hs ! (n - 1)) = word_of_nat (n - 1)"
    by (simp only: nth_ordered_calls[OF m] priority_Hook_call) simp
  then have prev: "sint (priority (?hs ! (n - 1))) = 32767" by (simp add: n_def)
  have n1: "n - 1 = 32767" by (simp add: n_def)
  from run last prev show ?thesis unfolding Sn n1 unfolding n_def by simp
qed

end
